theory Spec2Isabelle
  imports Complex_Main "HOL-Library.Signed_Division" "HOL-Library.Code_Target_Numeral"
begin

section \<open>Numbers of the program\<close>

text \<open>
  The program computes with C++ \<^verbatim>\<open>double\<close>, the binary64 format of IEEE 754. A double is
  modelled by its special values and, when finite, by the real number it stands for;
  comparisons and additions follow IEEE 754: the sum of two finite doubles is their
  exact sum rounded to the nearest double, a tie going to the double with the even
  significand, and a sum beyond the largest double overflows to an infinity. The two
  zeros are not told apart (no comparison of the program does).

  Unsigned machine integers (\<^verbatim>\<open>uint32_t\<close>, \<^verbatim>\<open>uint64_t\<close>) are natural numbers; where
  the source can wrap around, the reduction modulo \<open>2 ^ 32\<close> is written out.
\<close>

datatype double = Fin real | PInf | NInf | NaN

text \<open>\<^verbatim>\<open>a < b\<close> on doubles: false as soon as one side is NaN.\<close>

fun dlt :: "double \<Rightarrow> double \<Rightarrow> bool" where
  "dlt (Fin a) (Fin b) = (a < b)"
| "dlt (Fin a) PInf = True"
| "dlt NInf (Fin b) = True"
| "dlt NInf PInf = True"
| "dlt _ _ = False"

text \<open>\<^verbatim>\<open>a <= b\<close> on doubles.\<close>

fun dle :: "double \<Rightarrow> double \<Rightarrow> bool" where
  "dle (Fin a) (Fin b) = (a \<le> b)"
| "dle (Fin a) PInf = True"
| "dle NInf (Fin b) = True"
| "dle NInf PInf = True"
| "dle NInf NInf = True"
| "dle PInf PInf = True"
| "dle _ _ = False"

text \<open>\<^verbatim>\<open>a > b\<close> on doubles.\<close>

definition dgt :: "double \<Rightarrow> double \<Rightarrow> bool" where
  "dgt a b = dlt b a"

text \<open>
  Rounding to binary64. The finite doubles are the numbers \<open>m * 2 ^ e\<close> with an integer
  \<open>m\<close>, \<open>\<bar>m\<bar> < 2 ^ 53\<close>, and \<open>- 1074 \<le> e \<le> 971\<close>. For \<open>x > 0\<close>, \<open>expo x\<close> is the exponent of
  the binade of \<open>x\<close> (\<open>2 ^ expo x \<le> x < 2 ^ (expo x + 1)\<close>), the doubles around \<open>x\<close> are
  spaced \<open>2 ^ e\<close> apart with \<open>e = max (expo x - 52) (- 1074)\<close> (the second case is that of
  the subnormal numbers), and \<open>x\<close> is rounded to the nearest multiple of \<open>2 ^ e\<close>, to the
  even one when two are equally near (\<open>rne\<close>). A result of \<open>2 ^ 1024\<close> or more is an
  infinity.
\<close>

definition pow2 :: "int \<Rightarrow> real" where
  "pow2 e = (if 0 \<le> e then 2 ^ nat e else 1 / 2 ^ nat (- e))"

definition expo :: "real \<Rightarrow> int" where
  "expo x = (if x \<le> 0 then 0 else \<lfloor>log 2 x\<rfloor>)"

definition rne :: "real \<Rightarrow> int" where
  "rne x = (let f = \<lfloor>x\<rfloor>; d = x - of_int f in
     if d < 1 / 2 then f else if 1 / 2 < d then f + 1 else if even f then f else f + 1)"

definition round_pos :: "real \<Rightarrow> double" where
  "round_pos x = (let e = max (expo x - 52) (- 1074); v = of_int (rne (x / pow2 e)) * pow2 e in
     if pow2 1024 \<le> v then PInf else Fin v)"

fun dneg :: "double \<Rightarrow> double" where
  "dneg (Fin a) = Fin (- a)"
| "dneg PInf = NInf"
| "dneg NInf = PInf"
| "dneg NaN = NaN"

definition round64 :: "real \<Rightarrow> double" where
  "round64 x = (if x = 0 then Fin 0 else if 0 < x then round_pos x else dneg (round_pos (- x)))"

text \<open>\<^verbatim>\<open>a + b\<close> on doubles.\<close>

fun dadd :: "double \<Rightarrow> double \<Rightarrow> double" where
  "dadd (Fin a) (Fin b) = round64 (a + b)"
| "dadd NaN _ = NaN"
| "dadd _ NaN = NaN"
| "dadd PInf NInf = NaN"
| "dadd NInf PInf = NaN"
| "dadd PInf _ = PInf"
| "dadd _ PInf = PInf"
| "dadd NInf _ = NInf"
| "dadd _ NInf = NInf"

text \<open>Conversion of a \<^verbatim>\<open>uint32_t\<close> to \<^verbatim>\<open>int\<close> (32 bits, two's complement) and back.\<close>

definition to_int :: "nat \<Rightarrow> int" where
  "to_int u = (if u mod 2 ^ 32 < 2 ^ 31 then int (u mod 2 ^ 32) else int (u mod 2 ^ 32) - 2 ^ 32)"

definition to_u32 :: "int \<Rightarrow> nat" where
  "to_u32 i = nat (i mod 2 ^ 32)"

datatype error = OutOfRange

section \<open>Statistics Collector\<close>

subsection \<open>Per-link report (\<^verbatim>\<open>SaveLinkStats\<close>)\<close>

record LinkStats =
  st_srcName :: string
  st_dstName :: string
  txPackets :: nat
  rxPackets :: nat

record LinkRow =
  lr_src :: string
  lr_dst :: string
  lr_tx :: nat
  lr_rx :: nat
  lr_lost :: nat
  lr_plr :: real

text \<open>
  The body of the loop of \<^verbatim>\<open>SaveLinkStats\<close> for one link: the names come from the link,
  the counters from its \<^verbatim>\<open>LinkStats\<close>. The counters are \<^verbatim>\<open>uint64_t\<close>; the subtraction is
  guarded, so it never wraps. \<^verbatim>\<open>(double)lost / st.txPackets\<close> is the exact quotient.
\<close>

definition link_row :: "string \<Rightarrow> string \<Rightarrow> LinkStats \<Rightarrow> LinkRow" where
  "link_row sn dn st =
     (let lost = (if txPackets st \<ge> rxPackets st then txPackets st - rxPackets st else 0);
          plr = (if txPackets st > 0 then real lost / real (txPackets st) else 0)
      in \<lparr>lr_src = sn, lr_dst = dn, lr_tx = txPackets st, lr_rx = rxPackets st,
          lr_lost = lost, lr_plr = plr\<rparr>)"

subsection \<open>Per-flow report (\<^verbatim>\<open>SaveResults\<close>)\<close>

text \<open>
  The engine's flow counters, as \<^verbatim>\<open>FlowMonitor::FlowStats\<close> declares the fields the
  program reads: packet counts are \<^verbatim>\<open>uint32_t\<close>, the byte count is \<^verbatim>\<open>uint64_t\<close>, and a \<^verbatim>\<open>Time\<close>
  is a signed 64-bit count of nanoseconds.
\<close>

type_synonym Time = int

record FlowStats =
  fl_txPackets :: nat
  fl_rxPackets :: nat
  rxBytes :: nat
  timeFirstTxPacket :: Time
  timeLastRxPacket :: Time
  delaySum :: Time
  jitterSum :: Time

text \<open>\<^verbatim>\<open>Time::GetSeconds\<close> returns a \<^verbatim>\<open>double\<close>.\<close>

definition GetSeconds :: "Time \<Rightarrow> real" where
  "GetSeconds t = real_of_int t / 1000000000"

text \<open>\<^verbatim>\<open>Time::GetMilliSeconds\<close> returns an \<^verbatim>\<open>int64_t\<close>: whole milliseconds, truncated
  towards zero.\<close>

definition GetMilliSeconds :: "Time \<Rightarrow> int" where
  "GetMilliSeconds t = t sdiv 1000000"

record FlowRow =
  fr_tx :: nat
  fr_rx :: nat
  fr_lost :: nat
  fr_tp :: real
  fr_dl :: real
  fr_jt :: real
  fr_pl :: real

text \<open>
  The body of the loop of \<^verbatim>\<open>SaveResults\<close> for one flow. The two means are quotients of
  an \<^verbatim>\<open>int64_t\<close> by a \<^verbatim>\<open>uint32_t\<close>: C++ divides the integers (truncating towards zero)
  and only then converts the result to \<^verbatim>\<open>double\<close>.
\<close>

definition flow_row :: "FlowStats \<Rightarrow> FlowRow" where
  "flow_row fs =
     (let lost = (if fl_txPackets fs > fl_rxPackets fs then fl_txPackets fs - fl_rxPackets fs else 0);
          pl = (if fl_txPackets fs > 0 then real lost / real (fl_txPackets fs) else 0);
          dur = GetSeconds (timeLastRxPacket fs) - GetSeconds (timeFirstTxPacket fs);
          tp = (if fl_rxPackets fs > 0 \<and> dur > 0 then real (rxBytes fs) * 8 / dur / 1000000 else 0);
          dl = (if fl_rxPackets fs > 0
                then real_of_int (GetMilliSeconds (delaySum fs) sdiv int (fl_rxPackets fs)) else 0);
          jt = (if fl_rxPackets fs > 0
                then real_of_int (GetMilliSeconds (jitterSum fs) sdiv int (fl_rxPackets fs)) else 0)
      in \<lparr>fr_tx = fl_txPackets fs, fr_rx = fl_rxPackets fs, fr_lost = lost,
          fr_tp = tp, fr_dl = dl, fr_jt = jt, fr_pl = pl\<rparr>)"

section \<open>Topology Model\<close>

record LinkParam =
  srcId :: nat
  dstId :: nat
  srcName :: string
  dstName :: string
  delayMs :: double
  dataRateBps :: nat
  packetLossRate :: double
  distanceKm :: double

text \<open>
  One line of the link file after the header, as the body of the loop of \<^verbatim>\<open>LoadLinks\<close>
  sees it: a line that is empty once trimmed; a line on which one of the conversions
  (\<^verbatim>\<open>std::stoul\<close>, \<^verbatim>\<open>std::stod\<close>, \<^verbatim>\<open>std::stoull\<close>) throws; or a line whose fields convert,
  with the converted values in the order of the columns (the ids as stored in a
  \<^verbatim>\<open>uint32_t\<close>, the rate in a \<^verbatim>\<open>uint64_t\<close>) and the two optional columns present or not.
  \<^verbatim>\<open>std::stod\<close> accepts the texts \<^verbatim>\<open>inf\<close> and \<^verbatim>\<open>nan\<close>, so a converted delay is any double.
\<close>

datatype link_line =
    BlankLine
  | BadLine
  | LinkLine nat nat string string double nat "double option" "double option"

record Topology =
  g_links :: "LinkParam list"
  g_nodeIdToName :: "nat \<rightharpoonup> string"
  g_numNodes :: nat
  g_adjList :: "(nat \<times> double) list list"

text \<open>The body of the reading loop of \<^verbatim>\<open>LoadLinks\<close>. Every conversion comes before the
  first assignment to a global, so a line that throws changes nothing.\<close>

fun load_line :: "link_line \<Rightarrow> Topology \<Rightarrow> Topology" where
  "load_line BlankLine t = t"
| "load_line BadLine t = t"
| "load_line (LinkLine s d sn dn dl rt pl dk) t =
     (let p = \<lparr>srcId = s, dstId = d, srcName = sn, dstName = dn,
               delayMs = (if dle dl (Fin 0) then Fin 1 else dl),
               dataRateBps = (if rt < 1000 then 1000000 else rt),
               packetLossRate = (case pl of Some x \<Rightarrow> x | None \<Rightarrow> Fin 0),
               distanceKm = (case dk of Some x \<Rightarrow> x | None \<Rightarrow> Fin 0)\<rparr>;
          m = (max s d + 1) mod 2 ^ 32
      in t\<lparr>g_links := g_links t @ [p],
           g_nodeIdToName := (g_nodeIdToName t)(s \<mapsto> sn, d \<mapsto> dn),
           g_numNodes := (if m > g_numNodes t then m else g_numNodes t)\<rparr>)"

text \<open>\<^verbatim>\<open>g_adjList[u].push_back(e)\<close>; an index past the end is undefined behaviour in C++
  and an error here.\<close>

definition push_edge :: "nat \<Rightarrow> nat \<times> double \<Rightarrow> (nat \<times> double) list list
    \<Rightarrow> error + (nat \<times> double) list list" where
  "push_edge u e adj = (if u < length adj then Inr (adj[u := adj ! u @ [e]]) else Inl OutOfRange)"

fun add_edges :: "LinkParam list \<Rightarrow> (nat \<times> double) list list \<Rightarrow> error + (nat \<times> double) list list" where
  "add_edges [] adj = Inr adj"
| "add_edges (l # ls) adj =
     (case push_edge (srcId l) (dstId l, delayMs l) adj of
        Inl e \<Rightarrow> Inl e
      | Inr a1 \<Rightarrow>
          (case push_edge (dstId l) (srcId l, delayMs l) a1 of
             Inl e \<Rightarrow> Inl e
           | Inr a2 \<Rightarrow> add_edges ls a2))"

text \<open>\<^verbatim>\<open>std::vector::resize\<close> with empty lists as new elements.\<close>

definition resize :: "nat \<Rightarrow> 'a list list \<Rightarrow> 'a list list" where
  "resize n xs = take n xs @ replicate (n - length xs) []"

text \<open>
  \<^verbatim>\<open>LoadLinks\<close>. The file is \<open>None\<close> when it cannot be opened, and the list of its lines
  otherwise; the first line is the header. The result is the returned flag and the
  globals.
\<close>

definition LoadLinks :: "link_line list option \<Rightarrow> Topology \<Rightarrow> error + bool \<times> Topology" where
  "LoadLinks file t =
     (case file of
        None \<Rightarrow> Inr (False, t)
      | Some ls \<Rightarrow>
          (let t1 = fold load_line (drop 1 ls) t in
           case add_edges (g_links t1) (resize (g_numNodes t1) (g_adjList t1)) of
             Inl e \<Rightarrow> Inl e
           | Inr a \<Rightarrow> Inr (g_links t1 \<noteq> [], t1\<lparr>g_adjList := a\<rparr>)))"

text \<open>The globals when \<^verbatim>\<open>main\<close> starts.\<close>

definition no_topology :: Topology where
  "no_topology = \<lparr>g_links = [], g_nodeIdToName = Map.empty, g_numNodes = 0, g_adjList = []\<rparr>"

record TrafficDemand =
  demandId :: nat
  srcNode :: string
  dstNode :: string
  dm_srcId :: nat
  dm_dstId :: nat
  dataRateMbps :: double
  startTimeSec :: double
  durationSec :: double

datatype demand_line = BlankDemand | BadDemand | DemandLine TrafficDemand

fun load_demand :: "demand_line \<Rightarrow> TrafficDemand list \<Rightarrow> TrafficDemand list" where
  "load_demand BlankDemand ds = ds"
| "load_demand BadDemand ds = ds"
| "load_demand (DemandLine d) ds = ds @ [d]"

definition LoadDemands :: "demand_line list option \<Rightarrow> TrafficDemand list \<Rightarrow> bool \<times> TrafficDemand list" where
  "LoadDemands file ds =
     (case file of
        None \<Rightarrow> (False, ds)
      | Some ls \<Rightarrow> (let ds1 = fold load_demand (drop 1 ls) ds in (ds1 \<noteq> [], ds1)))"

text \<open>
  The start of \<^verbatim>\<open>main\<close>: the two loads. \<open>Inl\<close> is the exit status of a run that stops
  there (\<^verbatim>\<open>return 1\<close>), \<open>Inr\<close> the globals with which the run goes on, and \<open>None\<close> a run
  whose behaviour C++ leaves undefined.
\<close>

definition main_load :: "link_line list option \<Rightarrow> demand_line list option
    \<Rightarrow> (nat + Topology \<times> TrafficDemand list) option" where
  "main_load linkFile demandFile =
     (case LoadLinks linkFile no_topology of
        Inl e \<Rightarrow> None
      | Inr (ok, t) \<Rightarrow>
          if \<not> ok then Some (Inl 1)
          else (case LoadDemands demandFile [] of
                  (ok2, ds) \<Rightarrow> if \<not> ok2 then Some (Inl 1) else Some (Inr (t, ds))))"

section \<open>Shortest-Path Router\<close>

record DijkstraResult =
  dist :: "double list"
  prev :: "int list"

record DState = DijkstraResult +
  pq :: "(double \<times> nat) list"

text \<open>
  The priority queue holds pairs and is ordered by \<^verbatim>\<open>std::greater\<close>, so its top is the
  least pair in the order of \<^verbatim>\<open>std::pair\<close>: by the first component, then by the second.
  A key is pushed only after it compared less than a distance, so no key is NaN and the
  order is total on the pairs the queue holds.
\<close>

definition pair_lt :: "double \<times> nat \<Rightarrow> double \<times> nat \<Rightarrow> bool" where
  "pair_lt a b = (dlt (fst a) (fst b) \<or> (\<not> dlt (fst b) (fst a) \<and> snd a < snd b))"

fun pq_min :: "double \<times> nat \<Rightarrow> (double \<times> nat) list \<Rightarrow> double \<times> nat" where
  "pq_min m [] = m"
| "pq_min m (x # xs) = pq_min (if pair_lt x m then x else m) xs"

definition pq_top :: "(double \<times> nat) list \<Rightarrow> double \<times> nat" where
  "pq_top q = pq_min (hd q) (tl q)"

definition pq_pop :: "(double \<times> nat) list \<Rightarrow> (double \<times> nat) list" where
  "pq_pop q = remove1 (pq_top q) q"

text \<open>One round of the loop over \<^verbatim>\<open>g_adjList[u]\<close>.\<close>

definition relax :: "nat \<Rightarrow> nat \<times> double \<Rightarrow> DState \<Rightarrow> error + DState" where
  "relax u e s =
     (if fst e < length (dist s) \<and> fst e < length (prev s) then
        (if dlt (dadd (dist s ! u) (snd e)) (dist s ! fst e)
         then Inr (s\<lparr>dist := (dist s)[fst e := dadd (dist s ! u) (snd e)],
                     prev := (prev s)[fst e := to_int u],
                     pq := pq s @ [(dadd (dist s ! u) (snd e), fst e)]\<rparr>)
         else Inr s)
      else Inl OutOfRange)"

fun relax_edges :: "nat \<Rightarrow> (nat \<times> double) list \<Rightarrow> DState \<Rightarrow> error + DState" where
  "relax_edges u [] s = Inr s"
| "relax_edges u (e # es) s =
     (case relax u e s of Inl x \<Rightarrow> Inl x | Inr s1 \<Rightarrow> relax_edges u es s1)"

text \<open>The \<^verbatim>\<open>while (!pq.empty())\<close> loop. It need not end on every graph (a cycle of
  negative weight keeps it running), so not returning is the value \<open>None\<close>.\<close>

partial_function (option) dijkstra_loop :: "(nat \<times> double) list list \<Rightarrow> DState \<Rightarrow> (error + DState) option" where
  "dijkstra_loop adj s =
     (if pq s = [] then Some (Inr s)
      else
        (let d = fst (pq_top (pq s)); u = snd (pq_top (pq s)); s1 = s\<lparr>pq := pq_pop (pq s)\<rparr> in
         if \<not> u < length (dist s) then Some (Inl OutOfRange)
         else if dgt d (dist s ! u) then dijkstra_loop adj s1
         else if \<not> u < length adj then Some (Inl OutOfRange)
         else (case relax_edges u (adj ! u) s1 of
                 Inl x \<Rightarrow> Some (Inl x)
               | Inr s2 \<Rightarrow> dijkstra_loop adj s2)))"

declare dijkstra_loop.simps [code]

definition result_of :: "DState \<Rightarrow> DijkstraResult" where
  "result_of s = \<lparr>dist = dist s, prev = prev s\<rparr>"

text \<open>\<^verbatim>\<open>Dijkstra(src, numNodes)\<close>, with the global adjacency list as third argument.\<close>

definition Dijkstra :: "nat \<Rightarrow> nat \<Rightarrow> (nat \<times> double) list list \<Rightarrow> (error + DijkstraResult) option" where
  "Dijkstra src numNodes adj =
     (if src < numNodes then
        (case dijkstra_loop adj
                \<lparr>dist = (replicate numNodes PInf)[src := Fin 0],
                 prev = replicate numNodes (- 1),
                 pq = [(Fin 0, src)]\<rparr> of
           None \<Rightarrow> None
         | Some (Inl x) \<Rightarrow> Some (Inl x)
         | Some (Inr s) \<Rightarrow> Some (Inr (result_of s)))
      else Some (Inl OutOfRange))"

text \<open>The loop of \<^verbatim>\<open>GetPath\<close>: \<^verbatim>\<open>for (int at = dst; at != -1; at = prev[at]) path.push_back(at)\<close>.
  On an array of predecessors with a cycle it does not end.\<close>

partial_function (option) walk_back :: "int list \<Rightarrow> int \<Rightarrow> nat list \<Rightarrow> (error + nat list) option" where
  "walk_back prv cur path =
     (if cur = - 1 then Some (Inr path)
      else if cur < 0 \<or> \<not> nat cur < length prv then Some (Inl OutOfRange)
      else walk_back prv (prv ! nat cur) (path @ [to_u32 cur]))"

declare walk_back.simps [code]

definition GetPath :: "nat \<Rightarrow> nat \<Rightarrow> DijkstraResult \<Rightarrow> (error + nat list) option" where
  "GetPath src dst dijkstra =
     (if \<not> dst < length (dist dijkstra) then Some (Inl OutOfRange)
      else if dist dijkstra ! dst = PInf then Some (Inr [])
      else (case walk_back (prev dijkstra) (to_int dst) [] of
              None \<Rightarrow> None
            | Some (Inl x) \<Rightarrow> Some (Inl x)
            | Some (Inr path) \<Rightarrow> Some (Inr (rev path))))"

section \<open>Link setup, Route Installer and Traffic Scheduler\<close>

type_synonym Ipv4Address = nat

text \<open>
  What the engine hands back when the link loop of \<^verbatim>\<open>main\<close> has installed a link and
  assigned its addresses: the index of the new interface on each end
  (\<^verbatim>\<open>GetNInterfaces() - 1\<close>) and the two addresses (\<^verbatim>\<open>ifaces.GetAddress(0)\<close>,
  \<^verbatim>\<open>ifaces.GetAddress(1)\<close>). The engine is not part of the program, so these values are
  a parameter of the model: a function of the link's index and the link.
\<close>

record Bound =
  srcIfIndex :: nat
  dstIfIndex :: nat
  address0 :: Ipv4Address
  address1 :: Ipv4Address

record Setup =
  g_linkInterface :: "nat \<times> nat \<rightharpoonup> nat \<times> Ipv4Address"
  g_nodeFirstIp :: "nat \<rightharpoonup> Ipv4Address"

definition no_setup :: Setup where
  "no_setup = \<lparr>g_linkInterface = Map.empty, g_nodeFirstIp = Map.empty\<rparr>"

text \<open>The part of the body of the link loop that records the interfaces and the first
  address of each end.\<close>

definition bind_link :: "Bound \<Rightarrow> LinkParam \<Rightarrow> Setup \<Rightarrow> Setup" where
  "bind_link b l su =
     (let li1 = (g_linkInterface su)((srcId l, dstId l) \<mapsto> (srcIfIndex b, address1 b));
          li2 = li1((dstId l, srcId l) \<mapsto> (dstIfIndex b, address0 b));
          f1 = (if g_nodeFirstIp su (srcId l) = None
                then (g_nodeFirstIp su)(srcId l \<mapsto> address0 b) else g_nodeFirstIp su);
          f2 = (if f1 (dstId l) = None then f1(dstId l \<mapsto> address1 b) else f1)
      in su\<lparr>g_linkInterface := li2, g_nodeFirstIp := f2\<rparr>)"

fun bind_links :: "(nat \<Rightarrow> LinkParam \<Rightarrow> Bound) \<Rightarrow> nat \<Rightarrow> LinkParam list \<Rightarrow> Setup \<Rightarrow> Setup" where
  "bind_links engine i [] su = su"
| "bind_links engine i (l # ls) su = bind_links engine (i + 1) ls (bind_link (engine i l) l su)"

text \<open>A call of \<^verbatim>\<open>AddHostRouteTo(destAddr, nextHopAddr, ifIndex)\<close> on the static routing of
  a node.\<close>

record HostRoute =
  hr_node :: nat
  hr_dest :: Ipv4Address
  hr_nextHop :: Ipv4Address
  hr_ifIndex :: nat

record RouteRow =
  rr_flowId :: nat
  rr_srcNode :: string
  rr_dstNode :: string
  rr_hopCount :: nat
  rr_path :: "string list"

record Sink =
  sk_node :: nat
  sk_port :: nat
  sk_start :: double
  sk_stop :: double

record Client =
  cl_node :: nat
  cl_dest :: Ipv4Address
  cl_port :: nat
  cl_rate :: string
  cl_packetSize :: nat
  cl_start :: double
  cl_stop :: double

text \<open>
  What the demand loop of \<^verbatim>\<open>main\<close> has produced so far: the rows written to the route
  report, the calls of \<^verbatim>\<open>AddHostRouteTo\<close> made on the engine (in order), the warnings
  written to \<^verbatim>\<open>std::cerr\<close>, the receiving and sending endpoints installed, and the next
  port.
\<close>

record Run =
  routeRows :: "RouteRow list"
  routes :: "HostRoute list"
  warnings :: "(nat \<times> nat) list"
  sinks :: "Sink list"
  clients :: "Client list"
  port :: nat

definition start_run :: Run where
  "start_run = \<lparr>routeRows = [], routes = [], warnings = [], sinks = [], clients = [], port = 9000\<rparr>"

text \<open>\<^verbatim>\<open>std::to_string\<close> of an unsigned number.\<close>

fun to_string :: "nat \<Rightarrow> string" where
  "to_string n =
     (if n < 10 then [char_of (48 + n)] else to_string (n div 10) @ [char_of (48 + n mod 10)])"

declare to_string.simps [simp del]

definition GetNodeName :: "(nat \<rightharpoonup> string) \<Rightarrow> nat \<Rightarrow> string" where
  "GetNodeName names nodeId = (case names nodeId of Some n \<Rightarrow> n | None \<Rightarrow> ''Node_'' @ to_string nodeId)"

text \<open>
  The loop over the hops of a path, from hop \<open>hop\<close> on. \<^verbatim>\<open>main\<close> reaches it only with a
  path of at least two nodes, so \<^verbatim>\<open>path.size() - 1\<close> does not wrap around.
\<close>

function install_hops :: "(nat \<times> nat \<rightharpoonup> nat \<times> Ipv4Address) \<Rightarrow> Ipv4Address \<Rightarrow> nat list \<Rightarrow> nat \<Rightarrow> Run \<Rightarrow> Run" where
  "install_hops li destAddr path hop r =
     (if hop < length path - 1 then
        (case li (path ! hop, path ! (hop + 1)) of
           None \<Rightarrow>
             install_hops li destAddr path (hop + 1)
               (r\<lparr>warnings := warnings r @ [(path ! hop, path ! (hop + 1))]\<rparr>)
         | Some (ifIndex, nextHopAddr) \<Rightarrow>
             install_hops li destAddr path (hop + 1)
               (r\<lparr>routes := routes r @ [\<lparr>hr_node = path ! hop, hr_dest = destAddr,
                                           hr_nextHop = nextHopAddr, hr_ifIndex = ifIndex\<rparr>]\<rparr>))
      else r)"
  by pat_completeness auto
termination
  by (relation "measure (\<lambda>(li, destAddr, path, hop, r). length path - 1 - hop)") auto

declare install_hops.simps [simp del]

text \<open>The body of the demand loop of \<^verbatim>\<open>main\<close>, for a run of \<open>simTime\<close> seconds. \<open>dadd\<close> is
  the sum \<^verbatim>\<open>demand.startTimeSec + demand.durationSec\<close>; the port is a \<^verbatim>\<open>uint16_t\<close> and the
  flow id a \<^verbatim>\<open>uint32_t\<close>. The rate of a sending endpoint is handed to the engine as the
  text \<^verbatim>\<open>rateStr << demand.dataRateMbps << "Mbps"\<close>; what the stream writes for a double
  (by default at most six significant digits) is the parameter \<open>put\<close>. The on and off
  times of a sending endpoint are the same random variables for every demand and are
  left out of \<open>Client\<close>.\<close>

definition process_demand :: "(double \<Rightarrow> string) \<Rightarrow> Topology \<Rightarrow> Setup \<Rightarrow> double \<Rightarrow> TrafficDemand \<Rightarrow> Run
    \<Rightarrow> (error + Run) option" where
  "process_demand put t su simTime demand r =
     (case g_nodeFirstIp su (dm_dstId demand) of
        None \<Rightarrow> Some (Inr r)
      | Some destAddr \<Rightarrow>
          (case Dijkstra (dm_srcId demand) (g_numNodes t) (g_adjList t) of
             None \<Rightarrow> None
           | Some (Inl x) \<Rightarrow> Some (Inl x)
           | Some (Inr dijkstra) \<Rightarrow>
               (case GetPath (dm_srcId demand) (dm_dstId demand) dijkstra of
                  None \<Rightarrow> None
                | Some (Inl x) \<Rightarrow> Some (Inl x)
                | Some (Inr path) \<Rightarrow>
                    if path = [] \<or> length path < 2 then Some (Inr r)
                    else
                      (let r1 = r\<lparr>routeRows := routeRows r @
                                   [\<lparr>rr_flowId = (demandId demand + 1) mod 2 ^ 32,
                                     rr_srcNode = srcNode demand, rr_dstNode = dstNode demand,
                                     rr_hopCount = length path - 1,
                                     rr_path = map (GetNodeName (g_nodeIdToName t)) path\<rparr>]\<rparr>;
                           r2 = install_hops (g_linkInterface su) destAddr path 0 r1
                       in Some (Inr (r2\<lparr>sinks := sinks r2 @ [\<lparr>sk_node = dm_dstId demand, sk_port = port r2,
                                                          sk_start = Fin 0, sk_stop = simTime\<rparr>],
                                        clients := clients r2 @
                                          [\<lparr>cl_node = dm_srcId demand, cl_dest = destAddr, cl_port = port r2,
                                            cl_rate = put (dataRateMbps demand) @ ''Mbps'', cl_packetSize = 1024,
                                            cl_start = startTimeSec demand,
                                            cl_stop = dadd (startTimeSec demand) (durationSec demand)\<rparr>],
                                        port := (port r2 + 1) mod 2 ^ 16\<rparr>))))))"

text \<open>The demand loop: the demands in the order of the input.\<close>

fun run_demands :: "(double \<Rightarrow> string) \<Rightarrow> Topology \<Rightarrow> Setup \<Rightarrow> double \<Rightarrow> TrafficDemand list \<Rightarrow> Run
    \<Rightarrow> (error + Run) option" where
  "run_demands put t su simTime [] r = Some (Inr r)"
| "run_demands put t su simTime (d # ds) r =
     (case process_demand put t su simTime d r of
        None \<Rightarrow> None
      | Some (Inl x) \<Rightarrow> Some (Inl x)
      | Some (Inr r1) \<Rightarrow> run_demands put t su simTime ds r1)"

text \<open>
  Modelled from the spec: the forwarding table the engine keeps for the nodes
  (\<^verbatim>\<open>Ipv4StaticRouting::AddHostRouteTo\<close> is called by \<^verbatim>\<open>main\<close> and belongs to the engine, whose
  code is not among the sources). Section 4.3 of the specification describes a
  host-specific entry per node and destination address, "packets destined for the
  destination address leave via the interface toward the next hop", whose
  reinstallation is "a no-op or overwrite, never a conflict": a map from node and
  destination address to next hop and interface, updated by each call.
\<close>

definition AddHostRouteTo :: "HostRoute \<Rightarrow> (nat \<times> Ipv4Address \<rightharpoonup> Ipv4Address \<times> nat)
    \<Rightarrow> (nat \<times> Ipv4Address \<rightharpoonup> Ipv4Address \<times> nat)" where
  "AddHostRouteTo h f = f((hr_node h, hr_dest h) \<mapsto> (hr_nextHop h, hr_ifIndex h))"

definition installed :: "HostRoute list \<Rightarrow> (nat \<times> Ipv4Address \<rightharpoonup> Ipv4Address \<times> nat)
    \<Rightarrow> (nat \<times> Ipv4Address \<rightharpoonup> Ipv4Address \<times> nat)" where
  "installed hs f = fold AddHostRouteTo hs f"

section \<open>Notions used in the statements\<close>

text \<open>A line of the link file that is accepted, and one whose ids leave room for
  \<^verbatim>\<open>max(srcId, dstId) + 1\<close> in a \<^verbatim>\<open>uint32_t\<close>.\<close>

definition is_link :: "link_line \<Rightarrow> bool" where
  "is_link l = (case l of LinkLine s d sn dn dl rt pl dk \<Rightarrow> True | _ \<Rightarrow> False)"

definition is_demand :: "demand_line \<Rightarrow> bool" where
  "is_demand l = (case l of DemandLine d \<Rightarrow> True | _ \<Rightarrow> False)"

definition ids_ok :: "link_line \<Rightarrow> bool" where
  "ids_ok l = (case l of LinkLine s d sn dn dl rt pl dk \<Rightarrow> s < 2 ^ 32 - 1 \<and> d < 2 ^ 32 - 1 | _ \<Rightarrow> True)"

definition ids_below :: "nat \<Rightarrow> LinkParam \<Rightarrow> bool" where
  "ids_below n p = (srcId p < n \<and> dstId p < n)"

text \<open>What the loader guarantees of a stored link: the delay is not \<open>\<le> 0\<close> and the rate
  is at least 1000.\<close>

definition link_ok :: "LinkParam \<Rightarrow> bool" where
  "link_ok l = (\<not> dle (delayMs l) (Fin 0) \<and> 1000 \<le> dataRateBps l)"

text \<open>The consecutive pairs of a path, and the call of \<^verbatim>\<open>AddHostRouteTo\<close> that a pair
  with an interface leads to.\<close>

definition hops :: "nat list \<Rightarrow> (nat \<times> nat) list" where
  "hops path = zip path (tl path)"

definition route_of :: "(nat \<times> nat \<rightharpoonup> nat \<times> Ipv4Address) \<Rightarrow> Ipv4Address \<Rightarrow> nat \<times> nat \<Rightarrow> HostRoute option" where
  "route_of li destAddr p =
     (case li p of
        None \<Rightarrow> None
      | Some (ifIndex, nextHopAddr) \<Rightarrow>
          Some \<lparr>hr_node = fst p, hr_dest = destAddr, hr_nextHop = nextHopAddr, hr_ifIndex = ifIndex\<rparr>)"

section \<open>Notions used in the statements about the router\<close>

text \<open>
  A well-formed adjacency list for \<open>n\<close> nodes: one list of edges per node, with at most
  \<open>2 ^ 31\<close> nodes (so that a node id fits the \<^verbatim>\<open>int\<close> in which \<^verbatim>\<open>Dijkstra\<close> stores a
  predecessor), every edge leading to a node below \<open>n\<close>, and no weight \<open>\<le> 0\<close>. This is
  what \<^verbatim>\<open>LoadLinks\<close> builds: a stored delay is positive, or else \<open>+\<infinity>\<close> or NaN, and an
  edge with one of these two weights is never relaxed.
\<close>

definition graph_ok :: "(nat \<times> double) list list \<Rightarrow> nat \<Rightarrow> bool" where
  "graph_ok adj n =
     (length adj = n \<and> n \<le> 2 ^ 31
      \<and> list_all (\<lambda>es. list_all (\<lambda>e. fst e < n \<and> \<not> dle (snd e) (Fin 0)) es) adj)"

text \<open>The conditions of \<open>graph_ok\<close> on the edges alone.\<close>

definition edges_ok :: "nat \<Rightarrow> (nat \<times> double) list list \<Rightarrow> bool" where
  "edges_ok n adj = list_all (\<lambda>es. list_all (\<lambda>e. fst e < n \<and> \<not> dle (snd e) (Fin 0)) es) adj"

text \<open>\<open>walk adj src v r\<close>: there is a path from \<open>src\<close> to \<open>v\<close> along edges of finite delay
  whose delays, added one after the other from the source on with the addition of
  doubles, sum to the finite double \<open>r\<close>.\<close>

inductive walk :: "(nat \<times> double) list list \<Rightarrow> nat \<Rightarrow> nat \<Rightarrow> real \<Rightarrow> bool"
  for adj :: "(nat \<times> double) list list" and src :: nat where
  walk_src: "walk adj src src 0"
| walk_edge: "walk adj src u r \<Longrightarrow> u < length adj \<Longrightarrow> (v, Fin w) \<in> set (adj ! u)
     \<Longrightarrow> dadd (Fin r) (Fin w) = Fin r' \<Longrightarrow> walk adj src v r'"

text \<open>\<open>r\<close> is the least such sum of delays over the paths from \<open>src\<close> to \<open>v\<close>.\<close>

definition shortest :: "(nat \<times> double) list list \<Rightarrow> nat \<Rightarrow> nat \<Rightarrow> real \<Rightarrow> bool" where
  "shortest adj src v r = (walk adj src v r \<and> (\<forall>r'. walk adj src v r' \<longrightarrow> r \<le> r'))"

text \<open>There is an edge from \<open>a\<close> to \<open>b\<close> in the adjacency list.\<close>

definition has_edge :: "(nat \<times> double) list list \<Rightarrow> nat \<Rightarrow> nat \<Rightarrow> bool" where
  "has_edge adj a b = (a < length adj \<and> b \<in> fst ` set (adj ! a))"

subsection \<open>The spacing of the doubles\<close>

text \<open>The exponent of the spacing of the doubles around \<open>x > 0\<close>, and the multiple of the
  spacing that \<open>x\<close> is rounded to.\<close>

definition fexp :: "real \<Rightarrow> int" where
  "fexp x = max (expo x - 52) (- 1074)"

definition fval :: "real \<Rightarrow> real" where
  "fval x = of_int (rne (x / pow2 (fexp x))) * pow2 (fexp x)"

subsection \<open>Invariants of the loops\<close>

text \<open>
  The nodes whose current distance is finite and has no entry in the queue: they have
  been taken from the queue with their current distance.
\<close>

definition done_nodes :: "DState \<Rightarrow> nat set" where
  "done_nodes s = {x. x < length (dist s) \<and> (\<exists>r. dist s ! x = Fin r) \<and> (dist s ! x, x) \<notin> set (pq s)}"

text \<open>The test of the inner loop fails for the edge \<open>e\<close> out of \<open>x\<close>.\<close>

definition relaxed :: "DState \<Rightarrow> nat \<Rightarrow> nat \<times> double \<Rightarrow> bool" where
  "relaxed s x e = (\<not> dlt (dadd (dist s ! x) (snd e)) (dist s ! fst e))"

definition base_inv :: "(nat \<times> double) list list \<Rightarrow> nat \<Rightarrow> DState \<Rightarrow> bool" where
  "base_inv adj src s =
     (graph_ok adj (length adj) \<and> length (dist s) = length adj \<and> length (prev s) = length adj
      \<and> src < length adj \<and> dist s ! src = Fin 0 \<and> prev s ! src = - 1)"

text \<open>
  Every distance is \<open>+\<infinity>\<close> (with no predecessor) or a double that is the weight of a path
  from the source; the predecessor of a node other than the source is done and has an
  edge to it that accounts for its distance.
\<close>

definition dist_inv :: "(nat \<times> double) list list \<Rightarrow> nat \<Rightarrow> DState \<Rightarrow> bool" where
  "dist_inv adj src s =
     (\<forall>v<length adj.
        (dist s ! v = PInf \<and> prev s ! v = - 1) \<or>
        (\<exists>r. dist s ! v = Fin r \<and> 0 \<le> r \<and> round64 r = Fin r \<and> walk adj src v r \<and>
           (v \<noteq> src \<longrightarrow>
              (\<exists>u ru w. u \<in> done_nodes s \<and> u < length adj \<and> prev s ! v = int u \<and> dist s ! u = Fin ru
                 \<and> (v, Fin w) \<in> set (adj ! u) \<and> 0 < w \<and> dadd (Fin ru) (Fin w) = Fin r))))"

text \<open>
  The nodes that are done, in the order in which they were taken from the queue: the
  predecessor of a node that is done was taken before it. (A sum of doubles can be
  equal to one of its terms, so the distances alone do not order a node and its
  predecessor.)
\<close>

definition ord_inv :: "nat list \<Rightarrow> DState \<Rightarrow> bool" where
  "ord_inv ord s =
     (distinct ord \<and> set ord = done_nodes s
      \<and> (\<forall>j<length ord. \<forall>i. prev s ! (ord ! j) = int i \<longrightarrow> (\<exists>k<j. ord ! k = i)))"

text \<open>The queue holds no pair twice, and the key of an entry is finite and at least the
  current distance of its node.\<close>

definition pq_inv :: "(nat \<times> double) list list \<Rightarrow> DState \<Rightarrow> bool" where
  "pq_inv adj s =
     (distinct (pq s) \<and>
      (\<forall>k x. (k, x) \<in> set (pq s) \<longrightarrow>
         x < length adj \<and> (\<exists>r r'. k = Fin r \<and> dist s ! x = Fin r' \<and> r' \<le> r)))"

text \<open>No key in the queue is below the distance of a node that is done.\<close>

definition done_le :: "DState \<Rightarrow> bool" where
  "done_le s = (\<forall>x\<in>done_nodes s. \<forall>k y. (k, y) \<in> set (pq s) \<longrightarrow> dle (dist s ! x) k)"

definition core :: "(nat \<times> double) list list \<Rightarrow> nat \<Rightarrow> DState \<Rightarrow> bool" where
  "core adj src s = (base_inv adj src s \<and> dist_inv adj src s \<and> pq_inv adj s \<and> done_le s)"

text \<open>The invariant of the \<^verbatim>\<open>while\<close> loop: every edge out of a node that is done fails
  the test of the inner loop.\<close>

definition loop_inv :: "(nat \<times> double) list list \<Rightarrow> nat \<Rightarrow> nat list \<Rightarrow> DState \<Rightarrow> bool" where
  "loop_inv adj src ord s =
     (core adj src s \<and> ord_inv ord s \<and> (\<forall>x\<in>done_nodes s. \<forall>e\<in>set (adj ! x). relaxed s x e))"

text \<open>The invariant of the inner loop over the edges of \<open>u\<close>, with the edges \<open>es\<close> still to
  visit.\<close>

definition mid :: "(nat \<times> double) list list \<Rightarrow> nat \<Rightarrow> nat list \<Rightarrow> nat \<Rightarrow> (nat \<times> double) list \<Rightarrow> DState
    \<Rightarrow> bool" where
  "mid adj src ord u es s =
     (core adj src s \<and> ord_inv ord s \<and> u \<in> done_nodes s
      \<and> (\<forall>x\<in>done_nodes s. dle (dist s ! x) (dist s ! u))
      \<and> (\<forall>x\<in>done_nodes s. \<forall>e\<in>set (adj ! x). (x = u \<and> e \<in> set es) \<or> relaxed s x e))"

text \<open>An edge from \<open>a\<close> to \<open>b\<close> of weight \<open>w\<close> along which the distance grows by \<open>w\<close>: the
  distance of \<open>b\<close> is the sum, a double, of the distance of \<open>a\<close> and \<open>w\<close>.\<close>

definition tree_hop :: "(nat \<times> double) list list \<Rightarrow> double list \<Rightarrow> nat \<Rightarrow> nat \<Rightarrow> real \<Rightarrow> bool" where
  "tree_hop adj d a b w =
     (a < length adj \<and> (b, Fin w) \<in> set (adj ! a)
      \<and> (\<exists>ra rb. d ! a = Fin ra \<and> d ! b = Fin rb \<and> dadd (Fin ra) (Fin w) = Fin rb))"

text \<open>What the result of \<^verbatim>\<open>Dijkstra\<close> satisfies: the predecessors form a tree rooted at the
  source, each tree edge accounting exactly for the distance of its target; \<open>ord\<close> lists
  the nodes of finite distance, each after its predecessor.\<close>

definition tree_ok :: "(nat \<times> double) list list \<Rightarrow> nat \<Rightarrow> nat list \<Rightarrow> DijkstraResult \<Rightarrow> bool" where
  "tree_ok adj src ord res =
     (length adj \<le> 2 ^ 31 \<and> length (dist res) = length adj \<and> length (prev res) = length adj
      \<and> src < length adj \<and> dist res ! src = Fin 0 \<and> prev res ! src = - 1
      \<and> (\<forall>v<length adj. \<forall>r. dist res ! v = Fin r \<longrightarrow> v \<in> set ord)
      \<and> (\<forall>j<length ord. ord ! j < length adj \<and>
            (ord ! j \<noteq> src \<longrightarrow>
               (\<exists>k<j. \<exists>w. prev res ! (ord ! j) = int (ord ! k)
                   \<and> tree_hop adj (dist res) (ord ! k) (ord ! j) w))))"

text \<open>Every predecessor that is set is the (converted) id of a node with an edge to the
  node; this holds of \<^verbatim>\<open>Dijkstra\<close> on any adjacency list.\<close>

definition prev_edges :: "(nat \<times> double) list list \<Rightarrow> int list \<Rightarrow> bool" where
  "prev_edges adj prv =
     (\<forall>v<length prv. prv ! v = - 1 \<or> (\<exists>u. prv ! v = to_int u \<and> has_edge adj u v))"

text \<open>Each node pushed by the loop of \<^verbatim>\<open>GetPath\<close> has an edge to the node pushed before
  it.\<close>

definition back_chain :: "(nat \<times> double) list list \<Rightarrow> nat list \<Rightarrow> bool" where
  "back_chain adj p = (\<forall>i. i + 1 < length p \<longrightarrow> has_edge adj (p ! (i + 1)) (p ! i))"

section \<open>Theorems\<close>

subsection \<open>Loss accounting\<close>


subsection \<open>Throughput and means of a flow\<close>

text \<open>
  The throughput of a flow is \<open>rxBytes * 8 / (lastRx - firstTx) / 1e6\<close>, and \<open>0\<close> when no
  packet arrived or the duration is not positive.
\<close>

lemma flow_throughput:
  "fr_tp (flow_row fs) =
     (if fl_rxPackets fs = 0 \<or> GetSeconds (timeLastRxPacket fs) - GetSeconds (timeFirstTxPacket fs) \<le> 0
      then 0
      else real (rxBytes fs) * 8
             / (GetSeconds (timeLastRxPacket fs) - GetSeconds (timeFirstTxPacket fs)) / 1000000)"
  by (simp add: flow_row_def Let_def)

lemma flow_throughput_example:
  "fr_tp (flow_row \<lparr>fl_txPackets = 200, fl_rxPackets = 123, rxBytes = 125000,
       timeFirstTxPacket = 0, timeLastRxPacket = 1000000000, delaySum = 0, jitterSum = 0\<rparr>) = 1"
  by (simp add: flow_row_def Let_def GetSeconds_def)

lemma flow_means_zero:
  "fl_rxPackets fs = 0 \<Longrightarrow> fr_dl (flow_row fs) = 0 \<and> fr_jt (flow_row fs) = 0 \<and> fr_tp (flow_row fs) = 0"
  by (simp add: flow_row_def Let_def)

text \<open>
  Claim C7, at a flow with two received packets whose delays sum to 5 ms and whose
  jitters sum to 3 ms: the report gives a mean delay of 2 ms and a mean jitter of 1 ms,
  where the sums divided by the packet count are 2.5 ms and 1.5 ms.
\<close>

theorem flow_means_truncated:
  "fr_dl (flow_row \<lparr>fl_txPackets = 2, fl_rxPackets = 2, rxBytes = 2048,
       timeFirstTxPacket = 0, timeLastRxPacket = 1000000000,
       delaySum = 5000000, jitterSum = 3000000\<rparr>) = 2
   \<and> fr_jt (flow_row \<lparr>fl_txPackets = 2, fl_rxPackets = 2, rxBytes = 2048,
       timeFirstTxPacket = 0, timeLastRxPacket = 1000000000,
       delaySum = 5000000, jitterSum = 3000000\<rparr>) = 1
   \<and> real_of_int 5000000 / 1000000 / real 2 = 5 / 2
   \<and> real_of_int 3000000 / 1000000 / real 2 = 3 / 2"
  by (simp add: flow_row_def Let_def GetMilliSeconds_def signed_divide_int_def)

subsection \<open>Loading the links\<close>

lemma stored_delay_not_le:
  "\<not> dle (if dle dl (Fin 0) then Fin 1 else dl) (Fin 0)"
  by (cases dl) auto

lemma stored_delay_positive:
  "dl \<noteq> NaN \<Longrightarrow> dgt (if dle dl (Fin 0) then Fin 1 else dl) (Fin 0)"
  by (cases dl) (auto simp: dgt_def)

lemma load_line_ok:
  "list_all link_ok (g_links t) \<Longrightarrow> list_all link_ok (g_links (load_line l t))"
  by (cases l) (simp_all add: Let_def link_ok_def stored_delay_not_le)

lemma fold_load_line_ok:
  "list_all link_ok (g_links t) \<Longrightarrow> list_all link_ok (g_links (fold load_line ls t))"
  by (induction ls arbitrary: t) (simp_all add: load_line_ok)

text \<open>The two examples of the specification: a delay of \<open>-5\<close> is stored as \<open>1.0\<close>, a rate
  of 500 as 1,000,000.\<close>

lemma load_line_examples:
  "map delayMs (g_links (load_line (LinkLine 0 1 ''A'' ''B'' (Fin (- 5)) 500 None None) no_topology)) = [Fin 1]
   \<and> map dataRateBps (g_links (load_line (LinkLine 0 1 ''A'' ''B'' (Fin (- 5)) 500 None None) no_topology))
       = [1000000]"
  by (simp add: no_topology_def Let_def)

text \<open>
  Claim C5, at the link line \<^verbatim>\<open>0,1,A,B,nan,1000000\<close>: the line is accepted and the stored
  delay is NaN, which is not greater than \<open>0\<close>. (Every other stored delay is positive:
  \<open>stored_delay_positive\<close>.)
\<close>

theorem nan_delay_stored:
  "map delayMs (g_links (load_line (LinkLine 0 1 ''A'' ''B'' NaN 1000000 None None) no_topology)) = [NaN]
   \<and> \<not> dgt NaN (Fin 0)"
  by (simp add: no_topology_def dgt_def Let_def)

lemma ids_below_mono: "ids_below n p \<Longrightarrow> n \<le> m \<Longrightarrow> ids_below m p"
  by (simp add: ids_below_def)

lemma load_line_ids:
  assumes "ids_ok l" and "list_all (ids_below (g_numNodes t)) (g_links t)"
  shows "list_all (ids_below (g_numNodes (load_line l t))) (g_links (load_line l t))"
proof (cases l)
  case (LinkLine s d sn dn dl rt pl dk)
  with assms(1) have b: "s < 2 ^ 32 - 1" "d < 2 ^ 32 - 1" by (simp_all add: ids_ok_def)
  then have m: "(max s d + 1) mod 2 ^ 32 = max s d + 1" by simp
  have n: "g_numNodes (load_line l t) = max (g_numNodes t) (max s d + 1)"
    unfolding LinkLine load_line.simps Let_def m by (simp add: max_def)
  have old: "list_all (ids_below (max (g_numNodes t) (max s d + 1))) (g_links t)"
    using assms(2) by (auto simp: list_all_iff intro: ids_below_mono)
  have "\<exists>p. g_links (load_line l t) = g_links t @ [p] \<and> srcId p = s \<and> dstId p = d"
    unfolding LinkLine load_line.simps Let_def by simp
  then obtain p where p: "g_links (load_line l t) = g_links t @ [p]" "srcId p = s" "dstId p = d"
    by blast
  have "ids_below (max (g_numNodes t) (max s d + 1)) p"
    using p(2,3) by (auto simp: ids_below_def max_def)
  with old show ?thesis unfolding n p(1) by simp
qed (use assms in simp_all)

lemma fold_load_line_ids:
  "list_all ids_ok ls \<Longrightarrow> list_all (ids_below (g_numNodes t)) (g_links t) \<Longrightarrow>
   list_all (ids_below (g_numNodes (fold load_line ls t))) (g_links (fold load_line ls t))"
  by (induction ls arbitrary: t) (simp_all add: load_line_ids)

lemma push_edge_ok:
  "u < length adj \<Longrightarrow> push_edge u e adj = Inr (adj[u := adj ! u @ [e]])"
  by (simp add: push_edge_def)

lemma add_edges_ok:
  "list_all (ids_below (length adj)) ls \<Longrightarrow> \<exists>a. add_edges ls adj = Inr a \<and> length a = length adj"
proof (induction ls arbitrary: adj)
  case Nil
  show ?case by simp
next
  case (Cons l ls)
  let ?a1 = "adj[srcId l := adj ! srcId l @ [(dstId l, delayMs l)]]"
  let ?a2 = "?a1[dstId l := ?a1 ! dstId l @ [(srcId l, delayMs l)]]"
  from Cons.prems have l: "srcId l < length adj" "dstId l < length adj"
    and ls: "list_all (ids_below (length ?a2)) ls"
    by (simp_all add: ids_below_def [abs_def])
  from Cons.IH [OF ls] obtain a where "add_edges ls ?a2 = Inr a" "length a = length ?a2" by blast
  with l show ?case by (simp add: push_edge_def)
qed

lemma length_resize: "length (resize n xs) = n"
  by (simp add: resize_def)

lemma fold_load_line_empty:
  "(g_links (fold load_line ls t) = []) = (g_links t = [] \<and> \<not> list_ex is_link ls)"
proof (induction ls arbitrary: t)
  case Nil
  show ?case by simp
next
  case (Cons l ls)
  show ?case by (cases l) (simp_all add: Cons is_link_def Let_def)
qed

lemma fold_load_demand_empty:
  "(fold load_demand ls ds = []) = (ds = [] \<and> \<not> list_ex is_demand ls)"
proof (induction ls arbitrary: ds)
  case Nil
  show ?case by simp
next
  case (Cons l ls)
  show ?case by (cases l) (simp_all add: Cons is_demand_def)
qed

lemma LoadLinks_ok:
  assumes "list_all ids_ok (drop 1 ls)"
  shows "\<exists>t. LoadLinks (Some ls) no_topology = Inr (list_ex is_link (drop 1 ls), t)"
proof -
  let ?t1 = "fold load_line (drop 1 ls) no_topology"
  have "list_all (ids_below (g_numNodes ?t1)) (g_links ?t1)"
    using assms by (intro fold_load_line_ids) (simp_all add: no_topology_def)
  then have "list_all (ids_below (length (resize (g_numNodes ?t1) (g_adjList ?t1)))) (g_links ?t1)"
    by (simp add: length_resize)
  from add_edges_ok [OF this] obtain a where
    a: "add_edges (g_links ?t1) (resize (g_numNodes ?t1) (g_adjList ?t1)) = Inr a" by blast
  have "(g_links ?t1 \<noteq> []) = list_ex is_link (drop 1 ls)"
    using fold_load_line_empty [of "drop 1 ls" no_topology] by (simp add: no_topology_def)
  with a show ?thesis
    unfolding LoadLinks_def Let_def by (simp)
qed

lemma fold_load_line_filter: "fold load_line ls t = fold load_line (filter is_link ls) t"
proof (induction ls arbitrary: t)
  case Nil
  show ?case by simp
next
  case (Cons l ls)
  show ?case by (cases l) (simp_all add: Cons is_link_def)
qed

lemma fold_load_demand_filter: "fold load_demand ls ds = fold load_demand (filter is_demand ls) ds"
proof (induction ls arbitrary: ds)
  case Nil
  show ?case by simp
next
  case (Cons l ls)
  show ?case by (cases l) (simp_all add: Cons is_demand_def)
qed

text \<open>A link row with the id \<open>2 ^ 32 - 1\<close> is accepted; the node count wraps around to \<open>0\<close>
  and \<^verbatim>\<open>g_adjList\<close> is indexed beyond its end.\<close>

lemma link_id_wraps:
  "main_load (Some [BadLine, LinkLine 4294967295 0 ''A'' ''B'' (Fin 2) 1000000 None None]) df = None"
  by (simp add: main_load_def LoadLinks_def no_topology_def resize_def push_edge_def Let_def)




subsection \<open>Installing the routes of a path\<close>

lemma hops_drop:
  "hop < length path - 1 \<Longrightarrow>
   drop hop (hops path) = (path ! hop, path ! (hop + 1)) # drop (hop + 1) (hops path)"
proof -
  assume h: "hop < length path - 1"
  then have "hop < length (hops path)" by (simp add: hops_def)
  then have "drop hop (hops path) = hops path ! hop # drop (Suc hop) (hops path)"
    by (simp add: Cons_nth_drop_Suc)
  moreover have "hops path ! hop = (path ! hop, path ! (hop + 1))"
    using h by (simp add: hops_def nth_tl)
  ultimately show ?thesis by simp
qed

lemma install_hops_from:
  "install_hops li destAddr path hop r =
     r\<lparr>routes := routes r @ List.map_filter (route_of li destAddr) (drop hop (hops path)),
       warnings := warnings r @ filter (\<lambda>p. li p = None) (drop hop (hops path))\<rparr>"
proof (induction li destAddr path hop r rule: install_hops.induct)
  case (1 li destAddr path hop r)
  show ?case
  proof (cases "hop < length path - 1")
    case False
    then have "drop hop (hops path) = []" by (simp add: hops_def)
    with False show ?thesis
      by (simp add: install_hops.simps [of li destAddr path hop r])
  next
    case True
    note d = hops_drop [OF True]
    show ?thesis
    proof (cases "li (path ! hop, path ! (hop + 1))")
      case None
      with True 1(1) d show ?thesis
        by (simp add: install_hops.simps [of li destAddr path hop r] route_of_def)
    next
      case (Some a)
      obtain ifIndex nextHopAddr where a: "a = (ifIndex, nextHopAddr)" by (cases a)
      with True Some 1(2) d show ?thesis
        by (simp add: install_hops.simps [of li destAddr path hop r] route_of_def)
    qed
  qed
qed

text \<open>
  Claim C3. For a path and a destination address, the installer calls
  \<^verbatim>\<open>AddHostRouteTo\<close> once for every consecutive pair (current, next) of the path whose
  interface lookup succeeds, at node current, with the destination address and the
  interface and next hop looked up, in the order of the path; a pair whose lookup
  fails adds a warning and nothing else, and the pairs after it are still installed.
\<close>

theorem install_routes_hops:
  "install_hops li destAddr path 0 r =
     r\<lparr>routes := routes r @ List.map_filter (route_of li destAddr) (hops path),
       warnings := warnings r @ filter (\<lambda>p. li p = None) (hops path)\<rparr>"
  using install_hops_from [of li destAddr path 0 r] by simp

theorem install_routes_hops_witness:
  "routes (install_hops [(0, 1) \<mapsto> (1, 11), (2, 3) \<mapsto> (1, 13)] 7 [0, 1, 2, 3] 0 start_run)
     = [\<lparr>hr_node = 0, hr_dest = 7, hr_nextHop = 11, hr_ifIndex = 1\<rparr>,
        \<lparr>hr_node = 2, hr_dest = 7, hr_nextHop = 13, hr_ifIndex = 1\<rparr>]
   \<and> warnings (install_hops [(0, 1) \<mapsto> (1, 11), (2, 3) \<mapsto> (1, 13)] 7 [0, 1, 2, 3] 0 start_run)
     = [(1, 2)]"
  using install_routes_hops [of "[(0, 1) \<mapsto> (1, 11), (2, 3) \<mapsto> (1, 13)]" 7 "[0, 1, 2, 3]" start_run]
  by (simp add: hops_def route_of_def start_run_def)

subsection \<open>Reinstalling a host route\<close>

lemma fold_add_route: "fold AddHostRouteTo hs f = f ++ fold AddHostRouteTo hs Map.empty"
proof (induction hs arbitrary: f)
  case Nil
  show ?case by simp
next
  case (Cons h hs)
  have "fold AddHostRouteTo (h # hs) f = AddHostRouteTo h f ++ fold AddHostRouteTo hs Map.empty"
    using Cons [of "AddHostRouteTo h f"] by simp
  also have "AddHostRouteTo h f = f ++ AddHostRouteTo h Map.empty"
    by (simp add: AddHostRouteTo_def)
  also have "(f ++ AddHostRouteTo h Map.empty) ++ fold AddHostRouteTo hs Map.empty
      = f ++ fold AddHostRouteTo (h # hs) Map.empty"
    using Cons [of "AddHostRouteTo h Map.empty"] by simp
  finally show ?case .
qed

text \<open>
  Claim C9. Installing a host route a second time, with the same node, destination
  address, next hop and interface, leaves the forwarding table as the first
  installation left it; the same holds for installing a whole list of routes twice.
\<close>

theorem host_route_idempotent:
  "AddHostRouteTo h (AddHostRouteTo h f) = AddHostRouteTo h f
   \<and> installed (hs @ hs) f = installed hs f"
proof
  show "AddHostRouteTo h (AddHostRouteTo h f) = AddHostRouteTo h f"
    by (simp add: AddHostRouteTo_def)
  have "installed (hs @ hs) f = (f ++ fold AddHostRouteTo hs Map.empty) ++ fold AddHostRouteTo hs Map.empty"
    unfolding installed_def using fold_add_route [of hs "fold AddHostRouteTo hs f"] fold_add_route [of hs f]
    by simp
  also have "\<dots> = f ++ fold AddHostRouteTo hs Map.empty"
    by (rule ext) (simp add: map_add_def split: option.splits)
  finally show "installed (hs @ hs) f = installed hs f"
    unfolding installed_def using fold_add_route [of hs f] by simp
qed

section \<open>Rounding to a double\<close>

text \<open>Powers of two, the exponent of a positive number, and rounding to an integer.\<close>

lemma pow2_powr: "pow2 e = 2 powr (of_int e)"
  by (simp add: pow2_def powr_real_of_int inverse_eq_divide)

lemma pow2_pos [simp]: "0 < pow2 e"
  by (simp add: pow2_powr)

lemma pow2_nz [simp]: "pow2 e \<noteq> 0"
  by (simp add: pow2_powr)

lemma pow2_add: "pow2 (a + b) = pow2 a * pow2 b"
  by (simp add: pow2_powr powr_add)

lemma pow2_le [simp]: "pow2 a \<le> pow2 b \<longleftrightarrow> a \<le> b"
  by (simp add: pow2_powr)

lemma pow2_less [simp]: "pow2 a < pow2 b \<longleftrightarrow> a < b"
  by (simp add: pow2_powr)

lemma pow2_nat: "0 \<le> e \<Longrightarrow> pow2 e = of_int (2 ^ nat e)"
  by (simp add: pow2_def)

lemma expo_iff: "0 < x \<Longrightarrow> expo x = k \<longleftrightarrow> pow2 k \<le> x \<and> x < pow2 (k + 1)"
  unfolding expo_def pow2_powr using floor_log_eq_powr_iff [of x 2 k] by simp

lemma expo_bounds: "0 < x \<Longrightarrow> pow2 (expo x) \<le> x \<and> x < pow2 (expo x + 1)"
  using expo_iff [of x "expo x"] by simp

lemma pow2_one: "pow2 1 = 2"
  by (simp add: pow2_def)

lemma pow2_succ: "pow2 (k + 1) = 2 * pow2 k"
  using pow2_add [of k 1] by (simp add: pow2_one)

lemma expo_code [code]:
  "expo x = (if x \<le> 0 then 0 else if 2 \<le> x then expo (x / 2) + 1
             else if x < 1 then expo (2 * x) - 1 else 0)"
proof (cases "0 < x")
  case False
  then show ?thesis by (simp add: expo_def)
next
  case pos: True
  show ?thesis
  proof (cases "2 \<le> x")
    case True
    define k where "k = expo (x / 2)"
    have b: "pow2 k \<le> x / 2 \<and> x / 2 < pow2 (k + 1)"
      unfolding k_def using expo_bounds [of "x / 2"] pos by simp
    have "pow2 (k + 1) \<le> x \<and> x < pow2 (k + 1 + 1)"
      using b unfolding pow2_succ by simp
    then have "expo x = k + 1"
      using expo_iff [OF pos, of "k + 1"] by blast
    then show ?thesis using True pos by (simp add: k_def)
  next
    case False
    show ?thesis
    proof (cases "x < 1")
      case True
      define k where "k = expo (2 * x) - 1"
      have b: "pow2 (k + 1) \<le> 2 * x \<and> 2 * x < pow2 (k + 1 + 1)"
        unfolding k_def using expo_bounds [of "2 * x"] pos by simp
      have "pow2 k \<le> x \<and> x < pow2 (k + 1)"
        using b unfolding pow2_succ by simp
      then have "expo x = k"
        using expo_iff [OF pos, of k] by blast
      then show ?thesis using True False pos by (simp add: k_def)
    next
      case ge: False
      have "pow2 0 \<le> x \<and> x < pow2 (0 + 1)" using ge False by (simp add: pow2_def)
      then have "expo x = 0" using expo_iff [OF pos, of 0] by blast
      then show ?thesis using ge False pos by simp
    qed
  qed
qed

lemma rne_of_int [simp]: "rne (of_int k) = k"
  by (simp add: rne_def)

lemma rne_range: "\<lfloor>x\<rfloor> \<le> rne x \<and> rne x \<le> \<lfloor>x\<rfloor> + 1"
  by (simp add: rne_def Let_def)

lemma rne_mono: "x \<le> y \<Longrightarrow> rne x \<le> rne y"
proof -
  assume xy: "x \<le> y"
  have fl: "\<lfloor>x\<rfloor> \<le> \<lfloor>y\<rfloor>" using xy by (rule floor_mono)
  show ?thesis
  proof (cases "\<lfloor>x\<rfloor> = \<lfloor>y\<rfloor>")
    case True
    then show ?thesis using xy by (auto simp add: rne_def Let_def)
  next
    case False
    then have "\<lfloor>x\<rfloor> + 1 \<le> \<lfloor>y\<rfloor>" using fl by simp
    then show ?thesis using rne_range [of x] rne_range [of y] by linarith
  qed
qed

lemma rne_nonneg: "0 \<le> x \<Longrightarrow> 0 \<le> rne x"
  using rne_mono [of 0 x] rne_of_int [of 0] by simp


lemma pow2_diff: "pow2 (a - b) = pow2 a / pow2 b"
  by (simp add: pow2_powr powr_diff)

lemma pow2_int: "0 \<le> e \<Longrightarrow> \<exists>k::int. 0 < k \<and> pow2 e = of_int k"
  by (rule exI [of _ "2 ^ nat e"]) (simp add: pow2_def)

lemma round_pos_fval: "round_pos x = (if pow2 1024 \<le> fval x then PInf else Fin (fval x))"
  by (simp add: round_pos_def fval_def fexp_def Let_def)

lemma expo_mono: "0 < x \<Longrightarrow> x \<le> y \<Longrightarrow> expo x \<le> expo y"
  unfolding expo_def by (simp add: floor_mono)

lemma fexp_mono: "0 < x \<Longrightarrow> x \<le> y \<Longrightarrow> fexp x \<le> fexp y"
  using expo_mono [of x y] by (simp add: fexp_def)

lemma fexp_ge: "- 1074 \<le> fexp x"
  by (simp add: fexp_def)

lemma fexp_upper: "0 < x \<Longrightarrow> x < pow2 (fexp x + 53)"
proof -
  assume pos: "0 < x"
  have "expo x + 1 \<le> fexp x + 53" by (simp add: fexp_def)
  then have "pow2 (expo x + 1) \<le> pow2 (fexp x + 53)" by simp
  then show ?thesis using expo_bounds [OF pos] by linarith
qed

lemma fexp_lower: "0 < x \<Longrightarrow> - 1074 < fexp x \<Longrightarrow> pow2 (fexp x + 52) \<le> x"
proof -
  assume pos: "0 < x" and n: "- 1074 < fexp x"
  have "fexp x + 52 = expo x" using n by (simp add: fexp_def max_def split: if_splits)
  then show ?thesis using expo_bounds [OF pos] by simp
qed

lemma fval_nonneg: "0 \<le> x \<Longrightarrow> 0 \<le> fval x"
proof -
  assume "0 \<le> x"
  then have "0 \<le> x / pow2 (fexp x)" by (simp add: less_imp_le)
  then have "0 \<le> rne (x / pow2 (fexp x))" by (rule rne_nonneg)
  then show ?thesis unfolding fval_def by (simp add: less_imp_le)
qed

lemma fval_upper: "0 < x \<Longrightarrow> fval x \<le> pow2 (fexp x + 53)"
proof -
  assume pos: "0 < x"
  obtain k :: int where k: "pow2 53 = of_int k" using pow2_int [of 53] by auto
  have "x / pow2 (fexp x) \<le> pow2 53"
    using fexp_upper [OF pos] by (simp add: pow2_add field_simps)
  then have "rne (x / pow2 (fexp x)) \<le> rne (pow2 53)" by (rule rne_mono)
  then have "real_of_int (rne (x / pow2 (fexp x))) \<le> pow2 53"
    unfolding k by simp
  then have "real_of_int (rne (x / pow2 (fexp x))) * pow2 (fexp x) \<le> pow2 53 * pow2 (fexp x)"
    by (simp add: mult_right_mono)
  then show ?thesis by (simp add: fval_def pow2_add mult.commute)
qed

lemma fval_lower: "0 < x \<Longrightarrow> - 1074 < fexp x \<Longrightarrow> pow2 (fexp x + 52) \<le> fval x"
proof -
  assume pos: "0 < x" and n: "- 1074 < fexp x"
  obtain k :: int where k: "pow2 52 = of_int k" using pow2_int [of 52] by auto
  have "pow2 52 \<le> x / pow2 (fexp x)"
    using fexp_lower [OF pos n] by (simp add: pow2_add field_simps)
  then have "rne (pow2 52) \<le> rne (x / pow2 (fexp x))" by (rule rne_mono)
  then have "pow2 52 \<le> real_of_int (rne (x / pow2 (fexp x)))"
    unfolding k by simp
  then have "pow2 52 * pow2 (fexp x) \<le> real_of_int (rne (x / pow2 (fexp x))) * pow2 (fexp x)"
    by (simp add: mult_right_mono)
  then show ?thesis by (simp add: fval_def pow2_add mult.commute)
qed

lemma fval_mono: "0 < x \<Longrightarrow> x \<le> y \<Longrightarrow> fval x \<le> fval y"
proof -
  assume pos: "0 < x" and xy: "x \<le> y"
  have posy: "0 < y" using pos xy by simp
  show ?thesis
  proof (cases "fexp x = fexp y")
    case True
    have "x / pow2 (fexp y) \<le> y / pow2 (fexp y)"
      by (rule divide_right_mono [OF xy less_imp_le [OF pow2_pos]])
    then have "rne (x / pow2 (fexp y)) \<le> rne (y / pow2 (fexp y))" by (rule rne_mono)
    then have "real_of_int (rne (x / pow2 (fexp y))) * pow2 (fexp y)
        \<le> real_of_int (rne (y / pow2 (fexp y))) * pow2 (fexp y)"
      by (simp add: mult_right_mono)
    then show ?thesis by (simp add: fval_def True)
  next
    case False
    then have lt: "fexp x < fexp y" using fexp_mono [OF pos xy] by simp
    then have n: "- 1074 < fexp y" using fexp_ge [of x] by simp
    have "fexp x + 53 \<le> fexp y + 52" using lt by simp
    then have "pow2 (fexp x + 53) \<le> pow2 (fexp y + 52)" by simp
    then show ?thesis using fval_upper [OF pos] fval_lower [OF posy n] by linarith
  qed
qed

lemma round_pos_mono: "0 < x \<Longrightarrow> x \<le> y \<Longrightarrow> dle (round_pos x) (round_pos y)"
  using fval_mono [of x y] by (simp add: round_pos_fval)

lemma fval_fix:
  assumes m: "0 < m" "m \<le> 2 ^ 53" and e: "- 1074 \<le> e"
  shows "fval (of_int m * pow2 e) = of_int m * pow2 e"
proof -
  define r where "r = real_of_int m * pow2 e"
  have pos: "0 < r" using m by (simp add: r_def)
  have "\<exists>k::int. r / pow2 (fexp r) = of_int k"
  proof (cases "m = 2 ^ 53")
    case True
    have p53: "pow2 53 = 2 ^ 53" by (simp add: pow2_def)
    have "r = pow2 53 * pow2 e" by (simp add: r_def True p53)
    then have r53: "r = pow2 (e + 53)" by (simp add: pow2_add mult.commute)
    have "pow2 (e + 53) \<le> r \<and> r < pow2 (e + 53 + 1)" by (simp add: r53)
    then have "expo r = e + 53" using expo_iff [OF pos, of "e + 53"] by blast
    then have "fexp r = e + 1" using e by (simp add: fexp_def)
    then have "r / pow2 (fexp r) = pow2 (e + 53 - (e + 1))"
      unfolding pow2_diff by (simp add: r53)
    also have "\<dots> = pow2 52" by simp
    finally show ?thesis using pow2_int [of 52] by auto
  next
    case False
    then have "m < 2 ^ 53" using m by simp
    then have "real_of_int m < 2 ^ 53" by (metis of_int_less_iff of_int_numeral of_int_power)
    moreover have "pow2 53 = 2 ^ 53" by (simp add: pow2_def)
    ultimately have "real_of_int m < pow2 53" by simp
    then have "r < pow2 53 * pow2 e" unfolding r_def by (rule mult_strict_right_mono) simp
    then have "r < pow2 (e + 53)" by (simp add: pow2_add mult.commute)
    then have "pow2 (expo r) < pow2 (e + 53)" using expo_bounds [OF pos] by linarith
    then have "expo r < e + 53" by simp
    then have le: "fexp r \<le> e" using e by (simp add: fexp_def)
    then obtain k :: int where k: "pow2 (e - fexp r) = of_int k" using pow2_int [of "e - fexp r"] by auto
    have "r / pow2 (fexp r) = real_of_int m * pow2 (e - fexp r)" by (simp add: r_def pow2_diff)
    also have "\<dots> = of_int (m * k)" by (simp add: k)
    finally show ?thesis by blast
  qed
  then obtain k :: int where k: "r / pow2 (fexp r) = of_int k" by blast
  have "fval r = of_int k * pow2 (fexp r)" by (simp add: fval_def k)
  also have "\<dots> = r / pow2 (fexp r) * pow2 (fexp r)" by (simp only: k)
  also have "\<dots> = r" by simp
  finally show ?thesis by (simp add: r_def)
qed

lemma fval_idem: "0 < x \<Longrightarrow> 0 < fval x \<Longrightarrow> fval (fval x) = fval x"
proof -
  assume pos: "0 < x" and fpos: "0 < fval x"
  define m where "m = rne (x / pow2 (fexp x))"
  have fv: "fval x = of_int m * pow2 (fexp x)" by (simp add: fval_def m_def)
  have "0 < real_of_int m * pow2 (fexp x)" using fpos fv by simp
  then have "0 < real_of_int m" using pow2_pos [of "fexp x"] by (rule zero_less_mult_pos2)
  then have m0: "0 < m" by simp
  have k: "pow2 53 = of_int (2 ^ 53)" by (simp add: pow2_def)
  have "x / pow2 (fexp x) \<le> pow2 53"
    using fexp_upper [OF pos] by (simp add: pow2_add field_simps)
  then have "m \<le> rne (pow2 53)" unfolding m_def by (rule rne_mono)
  then have "m \<le> 2 ^ 53" unfolding k rne_of_int .
  then show ?thesis unfolding fv using fval_fix [OF m0 _ fexp_ge] by simp
qed

lemma round64_zero [simp]: "round64 0 = Fin 0"
  by (simp add: round64_def)

lemma round64_pos: "0 < x \<Longrightarrow> round64 x = PInf \<or> (\<exists>r. round64 x = Fin r \<and> 0 \<le> r)"
  using fval_nonneg [of x] by (simp add: round64_def round_pos_fval)

lemma round64_mono: "0 \<le> x \<Longrightarrow> x \<le> y \<Longrightarrow> dle (round64 x) (round64 y)"
proof -
  assume x: "0 \<le> x" and xy: "x \<le> y"
  show ?thesis
  proof (cases "x = 0")
    case True
    then show ?thesis using xy fval_nonneg [of y] by (auto simp add: round64_def round_pos_fval)
  next
    case False
    then have "0 < x" "0 < y" using x xy by auto
    then show ?thesis using round_pos_mono [of x y] xy by (simp add: round64_def)
  qed
qed

lemma round64_idem: "0 \<le> x \<Longrightarrow> round64 x = Fin r \<Longrightarrow> round64 r = Fin r"
proof -
  assume x: "0 \<le> x" and r: "round64 x = Fin r"
  show ?thesis
  proof (cases "x = 0")
    case True
    then show ?thesis using r by simp
  next
    case False
    then have pos: "0 < x" using x by simp
    have fr: "fval x = r" and small: "\<not> pow2 1024 \<le> r"
      using r pos by (auto simp add: round64_def round_pos_fval split: if_splits)
    show ?thesis
    proof (cases "r = 0")
      case True
      then show ?thesis by simp
    next
      case False
      then have rpos: "0 < r" using fval_nonneg [of x] pos fr by simp
      have "fval r = r" using fval_idem [OF pos] rpos fr by simp
      then show ?thesis using rpos small by (simp add: round64_def round_pos_fval)
    qed
  qed
qed


lemma round64_eval:
  assumes "0 < x" "pow2 k \<le> x" "x < pow2 (k + 1)"
  shows "round64 x = (let e = max (k - 52) (- 1074); v = of_int (rne (x / pow2 e)) * pow2 e in
     if pow2 1024 \<le> v then PInf else Fin v)"
proof -
  have "expo x = k" using expo_iff [OF assms(1), of k] assms by blast
  then show ?thesis using assms(1) by (simp add: round64_def round_pos_def)
qed

lemma round64_numeral [simp]:
  "numeral k \<le> (2 :: int) ^ 53 \<Longrightarrow> round64 (numeral k) = Fin (numeral k)"
proof -
  assume le: "numeral k \<le> (2 :: int) ^ 53"
  have p: "pow2 0 = 1" by (simp add: pow2_def)
  have f: "fval (real_of_int (numeral k) * pow2 0) = real_of_int (numeral k) * pow2 0"
    by (rule fval_fix [OF _ le]) simp_all
  have "real_of_int (numeral k) \<le> real_of_int (2 ^ 53)" using le by (simp only: of_int_le_iff)
  moreover have "real_of_int (2 ^ 53) < pow2 1024" by (simp add: pow2_def)
  ultimately have "\<not> pow2 1024 \<le> real_of_int (numeral k)" by linarith
  then have "\<not> pow2 1024 \<le> (numeral k :: real)" by simp
  then show ?thesis using f by (simp add: round64_def round_pos_fval p)
qed

section \<open>The Shortest-Path Router is correct\<close>

subsection \<open>Doubles, well-formed graphs and the priority queue\<close>

lemma to_int_small: "u < 2 ^ 31 \<Longrightarrow> to_int u = int u"
  by (simp add: to_int_def)

lemma graph_ok_edge:
  "graph_ok adj n \<Longrightarrow> u < n \<Longrightarrow> e \<in> set (adj ! u) \<Longrightarrow> fst e < n \<and> \<not> dle (snd e) (Fin 0)"
  by (auto simp: graph_ok_def list_all_iff)

text \<open>When the test of the inner loop succeeds, the weight is finite and positive and the
  sum is a finite double, not below the distance it was added to.\<close>

lemma dlt_fire:
  assumes f: "dlt (dadd (Fin ru) w) dv" and w: "\<not> dle w (Fin 0)"
    and ru: "0 \<le> ru" "round64 ru = Fin ru"
  shows "\<exists>rw rn. w = Fin rw \<and> 0 < rw \<and> dadd (Fin ru) w = Fin rn \<and> ru \<le> rn \<and> round64 rn = Fin rn
      \<and> (dv = PInf \<or> (\<exists>rv. dv = Fin rv \<and> rn < rv))"
proof (cases w)
  case (Fin rw)
  with w have rw: "0 < rw" by simp
  then have pos: "0 < ru + rw" using ru(1) by simp
  from f Fin have f': "dlt (round64 (ru + rw)) dv" by simp
  from round64_pos [OF pos] f' obtain rn where rn: "round64 (ru + rw) = Fin rn" "0 \<le> rn"
    by auto
  have "dle (round64 ru) (round64 (ru + rw))" using ru(1) rw by (intro round64_mono) simp_all
  then have le: "ru \<le> rn" using ru(2) rn(1) by simp
  have idem: "round64 rn = Fin rn" using round64_idem [OF _ rn(1)] pos by simp
  have "dv = PInf \<or> (\<exists>rv. dv = Fin rv \<and> rn < rv)" using f' rn(1) by (cases dv) simp_all
  with Fin rw rn(1) le idem show ?thesis by simp
next
  case PInf
  with f show ?thesis by simp
next
  case NInf
  with w show ?thesis by simp
next
  case NaN
  with f show ?thesis by simp
qed

lemma dlt_lower:
  "dlt a (Fin p) \<Longrightarrow> dv = PInf \<or> (\<exists>rv. dv = Fin rv \<and> p < rv) \<Longrightarrow> dlt a dv"
  by (cases a) auto

lemma pq_min_in: "pq_min m xs \<in> set (m # xs)"
  by (induction xs arbitrary: m) auto

lemma pq_min_le:
  "\<forall>e\<in>set (m # xs). \<exists>r. fst e = Fin r \<Longrightarrow> e \<in> set (m # xs) \<Longrightarrow> dle (fst (pq_min m xs)) (fst e)"
proof (induction xs arbitrary: m e)
  case Nil
  then show ?case by auto
next
  case (Cons x xs)
  let ?m = "if pair_lt x m then x else m"
  from Cons.prems(1) obtain rm rx where k: "fst m = Fin rm" "fst x = Fin rx" by auto
  have fin: "\<forall>e\<in>set (?m # xs). \<exists>r. fst e = Fin r" using Cons.prems(1) by auto
  have low: "dle (fst (pq_min ?m xs)) (fst ?m)" using Cons.IH [OF fin, of ?m] by simp
  obtain rl where rl: "fst (pq_min ?m xs) = Fin rl"
    using fin pq_min_in [of ?m xs] by blast
  have both: "dle (fst ?m) (fst m) \<and> dle (fst ?m) (fst x)"
    using k by (auto simp: pair_lt_def)
  have "e \<in> set (?m # xs) \<or> e = m \<or> e = x" using Cons.prems(2) by auto
  then show ?case
  proof (elim disjE)
    assume "e \<in> set (?m # xs)"
    with Cons.IH [OF fin, of e] show ?thesis by simp
  next
    assume "e = m"
    with low both rl k show ?thesis by (cases "pair_lt x m") auto
  next
    assume "e = x"
    with low both rl k show ?thesis by (cases "pair_lt x m") auto
  qed
qed

lemma pq_top_in: "q \<noteq> [] \<Longrightarrow> pq_top q \<in> set q"
  using pq_min_in [of "hd q" "tl q"] by (cases q) (auto simp: pq_top_def)

lemma pq_top_le:
  "q \<noteq> [] \<Longrightarrow> \<forall>e\<in>set q. \<exists>r. fst e = Fin r \<Longrightarrow> e \<in> set q \<Longrightarrow> dle (fst (pq_top q)) (fst e)"
  using pq_min_le [of "hd q" "tl q" e] by (cases q) (auto simp: pq_top_def)

subsection \<open>The invariant at the start and when an entry is taken from the queue\<close>

lemma done_nodesI:
  "x < length (dist s) \<Longrightarrow> dist s ! x = Fin r \<Longrightarrow> (Fin r, x) \<notin> set (pq s) \<Longrightarrow> x \<in> done_nodes s"
  by (simp add: done_nodes_def)

lemma done_nodesD:
  "x \<in> done_nodes s \<Longrightarrow> x < length (dist s) \<and> (\<exists>r. dist s ! x = Fin r \<and> (Fin r, x) \<notin> set (pq s))"
  by (auto simp: done_nodes_def)

lemma dist_inv_cong:
  assumes "dist_inv adj src s" "dist s' = dist s" "prev s' = prev s" "done_nodes s \<subseteq> done_nodes s'"
  shows "dist_inv adj src s'"
  unfolding dist_inv_def
proof (intro allI impI)
  fix v assume v: "v < length adj"
  from assms(1) v have "(dist s ! v = PInf \<and> prev s ! v = - 1) \<or>
        (\<exists>r. dist s ! v = Fin r \<and> 0 \<le> r \<and> round64 r = Fin r \<and> walk adj src v r \<and>
           (v \<noteq> src \<longrightarrow>
              (\<exists>u ru w. u \<in> done_nodes s \<and> u < length adj \<and> prev s ! v = int u \<and> dist s ! u = Fin ru
                 \<and> (v, Fin w) \<in> set (adj ! u) \<and> 0 < w \<and> dadd (Fin ru) (Fin w) = Fin r)))"
    unfolding dist_inv_def by blast
  then show "(dist s' ! v = PInf \<and> prev s' ! v = - 1) \<or>
        (\<exists>r. dist s' ! v = Fin r \<and> 0 \<le> r \<and> round64 r = Fin r \<and> walk adj src v r \<and>
           (v \<noteq> src \<longrightarrow>
              (\<exists>u ru w. u \<in> done_nodes s' \<and> u < length adj \<and> prev s' ! v = int u \<and> dist s' ! u = Fin ru
                 \<and> (v, Fin w) \<in> set (adj ! u) \<and> 0 < w \<and> dadd (Fin ru) (Fin w) = Fin r)))"
    unfolding assms(2,3) using assms(4) by blast
qed

lemma init_inv:
  assumes "graph_ok adj n" "src < n"
  shows "loop_inv adj src [] \<lparr>dist = (replicate n PInf)[src := Fin 0], prev = replicate n (- 1),
            pq = [(Fin 0, src)]\<rparr>"
proof -
  let ?s = "\<lparr>dist = (replicate n PInf)[src := Fin 0], prev = replicate n (- 1), pq = [(Fin 0, src)]\<rparr>"
  from assms have n: "length adj = n" by (simp add: graph_ok_def)
  have d: "done_nodes ?s = {}"
    using assms(2) by (auto simp: done_nodes_def nth_list_update split: if_splits)
  have b: "base_inv adj src ?s" using assms n by (simp add: base_inv_def)
  have di: "dist_inv adj src ?s"
    unfolding dist_inv_def using assms n by (auto simp: nth_list_update intro: walk_src)
  have p: "pq_inv adj ?s" using assms n by (simp add: pq_inv_def)
  have o: "ord_inv [] ?s" by (simp add: ord_inv_def d)
  show ?thesis
    unfolding loop_inv_def core_def done_le_def d using b di p o by simp
qed

lemma pop_facts:
  assumes "pq_inv adj s" "pq s \<noteq> []"
  shows "pq_top (pq s) \<in> set (pq s)"
    and "snd (pq_top (pq s)) < length adj"
    and "\<exists>r r'. fst (pq_top (pq s)) = Fin r \<and> dist s ! snd (pq_top (pq s)) = Fin r' \<and> r' \<le> r"
    and "(k, y) \<in> set (pq s) \<Longrightarrow> dle (fst (pq_top (pq s))) k"
    and "set (pq_pop (pq s)) = set (pq s) - {pq_top (pq s)}"
    and "distinct (pq_pop (pq s))"
    and "length (pq_pop (pq s)) < length (pq s)"
proof -
  show t: "pq_top (pq s) \<in> set (pq s)" by (rule pq_top_in [OF assms(2)])
  obtain d u where du: "pq_top (pq s) = (d, u)" by (cases "pq_top (pq s)")
  from t du assms(1) show "snd (pq_top (pq s)) < length adj"
    by (auto simp: pq_inv_def)
  from t du assms(1)
  show "\<exists>r r'. fst (pq_top (pq s)) = Fin r \<and> dist s ! snd (pq_top (pq s)) = Fin r' \<and> r' \<le> r"
    by (auto simp: pq_inv_def)
  have fin: "\<forall>e\<in>set (pq s). \<exists>r. fst e = Fin r"
    using assms(1) by (fastforce simp: pq_inv_def)
  show "(k, y) \<in> set (pq s) \<Longrightarrow> dle (fst (pq_top (pq s))) k"
    using pq_top_le [OF assms(2) fin, of "(k, y)"] by simp
  from assms(1) have dis: "distinct (pq s)" by (simp add: pq_inv_def)
  then show "set (pq_pop (pq s)) = set (pq s) - {pq_top (pq s)}"
    by (simp add: pq_pop_def)
  from dis show "distinct (pq_pop (pq s))" by (simp add: pq_pop_def)
  from t assms(2) show "length (pq_pop (pq s)) < length (pq s)"
    by (simp add: pq_pop_def length_remove1)
qed

lemma pop_stale:
  assumes inv: "loop_inv adj src ord s" and ne: "pq s \<noteq> []"
    and st: "dgt (fst (pq_top (pq s))) (dist s ! snd (pq_top (pq s)))"
  shows "loop_inv adj src ord (s\<lparr>pq := pq_pop (pq s)\<rparr>)"
    and "done_nodes (s\<lparr>pq := pq_pop (pq s)\<rparr>) = done_nodes s"
proof -
  let ?s1 = "s\<lparr>pq := pq_pop (pq s)\<rparr>"
  from inv have c: "base_inv adj src s" "dist_inv adj src s" "pq_inv adj s" "done_le s"
    and oi: "ord_inv ord s"
    and rel: "\<forall>x\<in>done_nodes s. \<forall>e\<in>set (adj ! x). relaxed s x e"
    by (simp_all add: loop_inv_def core_def)
  note pf = pop_facts [OF c(3) ne]
  obtain d u where du: "pq_top (pq s) = (d, u)" by (cases "pq_top (pq s)")
  from pf(3) st du have neq: "d \<noteq> dist s ! u" by (auto simp: dgt_def)
  show dn: "done_nodes ?s1 = done_nodes s"
    using pf(5) du neq by (auto simp: done_nodes_def)
  have b: "base_inv adj src ?s1" using c(1) by (simp add: base_inv_def)
  have di: "dist_inv adj src ?s1" by (rule dist_inv_cong [OF c(2)]) (simp_all add: dn)
  have p: "pq_inv adj ?s1" using c(3) pf(5,6) by (auto simp: pq_inv_def)
  have dl: "done_le ?s1" using c(4) pf(5) unfolding done_le_def dn by auto
  have o: "ord_inv ord ?s1" using oi unfolding ord_inv_def dn by simp
  have r: "\<forall>x\<in>done_nodes ?s1. \<forall>e\<in>set (adj ! x). relaxed ?s1 x e"
    using rel unfolding dn by (simp add: relaxed_def)
  from b di p dl o r show "loop_inv adj src ord ?s1" by (simp add: loop_inv_def core_def)
qed

lemma pop_fresh:
  assumes inv: "loop_inv adj src ord s" and ne: "pq s \<noteq> []"
    and st: "\<not> dgt (fst (pq_top (pq s))) (dist s ! snd (pq_top (pq s)))"
  shows "mid adj src (ord @ [snd (pq_top (pq s))]) (snd (pq_top (pq s))) (adj ! snd (pq_top (pq s)))
            (s\<lparr>pq := pq_pop (pq s)\<rparr>)"
    and "done_nodes (s\<lparr>pq := pq_pop (pq s)\<rparr>) = insert (snd (pq_top (pq s))) (done_nodes s)"
    and "snd (pq_top (pq s)) \<notin> done_nodes s"
proof -
  let ?s1 = "s\<lparr>pq := pq_pop (pq s)\<rparr>"
  from inv have c: "base_inv adj src s" "dist_inv adj src s" "pq_inv adj s" "done_le s"
    and oi: "ord_inv ord s"
    and rel: "\<forall>x\<in>done_nodes s. \<forall>e\<in>set (adj ! x). relaxed s x e"
    by (simp_all add: loop_inv_def core_def)
  note pf = pop_facts [OF c(3) ne]
  obtain d u where du: "pq_top (pq s) = (d, u)" by (cases "pq_top (pq s)")
  from pf(3) st du obtain ru where ru: "d = Fin ru" "dist s ! u = Fin ru"
    by (auto simp: dgt_def)
  from pf(2) du c(1) have un: "u < length adj" "u < length (dist s)"
    by (simp_all add: base_inv_def)
  show nd: "snd (pq_top (pq s)) \<notin> done_nodes s"
    using pf(1) du ru by (auto simp: done_nodes_def)
  show dn: "done_nodes ?s1 = insert (snd (pq_top (pq s))) (done_nodes s)"
    using pf(5) du ru un by (auto simp: done_nodes_def)
  have b: "base_inv adj src ?s1" using c(1) by (simp add: base_inv_def)
  have di: "dist_inv adj src ?s1" by (rule dist_inv_cong [OF c(2)]) (simp_all add: dn subset_insertI)
  have p: "pq_inv adj ?s1" using c(3) pf(5,6) by (auto simp: pq_inv_def)
  have le_u: "\<forall>x\<in>done_nodes s. dle (dist s ! x) (Fin ru)"
    using c(4) pf(1) du ru by (auto simp: done_le_def)
  have dl: "done_le ?s1"
    unfolding done_le_def dn
  proof (intro ballI allI impI)
    fix x k y
    assume x: "x \<in> insert (snd (pq_top (pq s))) (done_nodes s)" and ky: "(k, y) \<in> set (pq ?s1)"
    from ky pf(5) have ky': "(k, y) \<in> set (pq s)" by simp
    show "dle (dist ?s1 ! x) k"
    proof (cases "x = u")
      case True
      with pf(4) [OF ky'] du ru show ?thesis by simp
    next
      case False
      with x du have "x \<in> done_nodes s" by simp
      with c(4) ky' show ?thesis by (auto simp: done_le_def)
    qed
  qed
  from oi have od: "distinct ord" and os: "set ord = done_nodes s"
    and op: "\<forall>j<length ord. \<forall>i. prev s ! (ord ! j) = int i \<longrightarrow> (\<exists>k<j. ord ! k = i)"
    by (simp_all add: ord_inv_def)
  have o: "ord_inv (ord @ [u]) ?s1"
    unfolding ord_inv_def
  proof (intro conjI allI impI)
    show "distinct (ord @ [u])" using od os nd du by simp
    show "set (ord @ [u]) = done_nodes ?s1" using os dn du by simp
  next
    fix j i
    assume j: "j < length (ord @ [u])" and pi: "prev ?s1 ! ((ord @ [u]) ! j) = int i"
    show "\<exists>k<j. (ord @ [u]) ! k = i"
    proof (cases "j < length ord")
      case True
      with pi have "prev s ! (ord ! j) = int i" by (simp add: nth_append)
      with op True obtain k where k: "k < j" "ord ! k = i" by blast
      with True have "(ord @ [u]) ! k = i" by (simp add: nth_append)
      with k(1) show ?thesis by blast
    next
      case False
      with j have jl: "j = length ord" by simp
      with pi have pu: "prev s ! u = int i" by simp
      from c(1) have ps: "prev s ! src = - 1" by (simp add: base_inv_def)
      with pu have us: "u \<noteq> src" by auto
      from c(2) un(1) ru(2) us obtain u' where u': "u' \<in> done_nodes s" "prev s ! u = int u'"
        unfolding dist_inv_def by fastforce
      with pu have "i \<in> set ord" using os by simp
      then obtain k where "k < length ord" "ord ! k = i" by (auto simp: in_set_conv_nth)
      with jl show ?thesis by (intro exI [of _ k]) (simp add: nth_append)
    qed
  qed
  have m1: "u \<in> done_nodes ?s1" using dn du by simp
  have m2: "\<forall>x\<in>done_nodes ?s1. dle (dist ?s1 ! x) (dist ?s1 ! u)"
    unfolding dn using le_u du ru by auto
  have m3: "\<forall>x\<in>done_nodes ?s1. \<forall>e\<in>set (adj ! x). (x = u \<and> e \<in> set (adj ! u)) \<or> relaxed ?s1 x e"
    unfolding dn using rel du by (auto simp: relaxed_def)
  from b di p dl o m1 m2 m3
  show "mid adj src (ord @ [snd (pq_top (pq s))]) (snd (pq_top (pq s))) (adj ! snd (pq_top (pq s))) ?s1"
    unfolding mid_def core_def using du by simp
qed

subsection \<open>The invariant along the edges of a node\<close>

lemma relax_mid:
  assumes m: "mid adj src ord u (e # es) s" and e: "e \<in> set (adj ! u)"
  shows "\<exists>s'. relax u e s = Inr s' \<and> mid adj src ord u es s' \<and> done_nodes s' = done_nodes s"
proof -
  from m have c: "base_inv adj src s" "dist_inv adj src s" "pq_inv adj s" "done_le s"
    and oi: "ord_inv ord s"
    and ud: "u \<in> done_nodes s"
    and le: "\<forall>x\<in>done_nodes s. dle (dist s ! x) (dist s ! u)"
    and rel: "\<forall>x\<in>done_nodes s. \<forall>e'\<in>set (adj ! x). (x = u \<and> e' \<in> set (e # es)) \<or> relaxed s x e'"
    by (simp_all add: mid_def core_def)
  from c(1) have g: "graph_ok adj (length adj)" and len: "length (dist s) = length adj"
    "length (prev s) = length adj" and src: "src < length adj" "dist s ! src = Fin 0" "prev s ! src = - 1"
    by (simp_all add: base_inv_def)
  from ud len obtain ru where u: "u < length adj" "dist s ! u = Fin ru" "(Fin ru, u) \<notin> set (pq s)"
    by (auto simp: done_nodes_def)
  obtain v w where vw: "e = (v, w)" by (cases e)
  from graph_ok_edge [OF g u(1) e] vw have v: "v < length adj" and w: "\<not> dle w (Fin 0)" by simp_all
  from c(2) u(1,2) have ru0: "0 \<le> ru" and rud: "round64 ru = Fin ru" and wu: "walk adj src u ru"
    by (auto simp: dist_inv_def)
  show ?thesis
  proof (cases "dlt (dadd (dist s ! u) w) (dist s ! v)")
    case False
    then have r: "relax u e s = Inr s" using v len vw by (simp add: relax_def)
    have "relaxed s u e" using False vw by (simp add: relaxed_def)
    with rel have "\<forall>x\<in>done_nodes s. \<forall>e'\<in>set (adj ! x). (x = u \<and> e' \<in> set es) \<or> relaxed s x e'"
      by auto
    with m have "mid adj src ord u es s" by (simp add: mid_def)
    with r show ?thesis by simp
  next
    case True
    from dlt_fire [OF True [unfolded u(2)] w ru0 rud] obtain rw rn where
      rw: "w = Fin rw" "0 < rw" and rn: "dadd (Fin ru) w = Fin rn" "ru \<le> rn" "round64 rn = Fin rn"
      and dv: "dist s ! v = PInf \<or> (\<exists>rv. dist s ! v = Fin rv \<and> rn < rv)"
      by blast
    let ?s' = "s\<lparr>dist := (dist s)[v := Fin rn], prev := (prev s)[v := to_int u],
                  pq := pq s @ [(Fin rn, v)]\<rparr>"
    have r: "relax u e s = Inr ?s'"
      using True v len vw u(2) rn(1) by (simp add: relax_def)
    have rn0: "0 \<le> rn" using ru0 rn(2) by simp
    have vu: "v \<noteq> u" using dv u(2) rn(2) by auto
    have vs: "v \<noteq> src" using dv src(2) rn0 by auto
    have vnd: "v \<notin> done_nodes s"
    proof
      assume "v \<in> done_nodes s"
      with le have "dle (dist s ! v) (Fin ru)" by (simp add: u(2))
      with dv rn(2) show False by auto
    qed
    have newpq: "(Fin rn, v) \<notin> set (pq s)"
    proof
      assume "(Fin rn, v) \<in> set (pq s)"
      with c(3) obtain r' where "dist s ! v = Fin r'" "r' \<le> rn" by (auto simp: pq_inv_def)
      with dv show False by auto
    qed
    have dx: "\<And>x. x \<noteq> v \<Longrightarrow> dist ?s' ! x = dist s ! x" by simp
    have px: "\<And>x. x \<noteq> v \<Longrightarrow> prev ?s' ! x = prev s ! x" by simp
    have dvn: "dist ?s' ! v = Fin rn" using v len by simp
    have dn: "done_nodes ?s' = done_nodes s"
    proof (intro set_eqI iffI)
      fix x assume "x \<in> done_nodes ?s'"
      then show "x \<in> done_nodes s"
        using v len by (cases "x = v") (auto simp: done_nodes_def)
    next
      fix x assume "x \<in> done_nodes s"
      with vnd have "x \<noteq> v" by auto
      with \<open>x \<in> done_nodes s\<close> show "x \<in> done_nodes ?s'"
        by (auto simp: done_nodes_def)
    qed
    have b: "base_inv adj src ?s'"
      using c(1) vs by (simp add: base_inv_def)
    have u31: "to_int u = int u"
      using g u(1) by (intro to_int_small) (simp add: graph_ok_def)
    have di: "dist_inv adj src ?s'"
      unfolding dist_inv_def dn
    proof (intro allI impI)
      fix x assume x: "x < length adj"
      show "(dist ?s' ! x = PInf \<and> prev ?s' ! x = - 1) \<or>
        (\<exists>r. dist ?s' ! x = Fin r \<and> 0 \<le> r \<and> round64 r = Fin r \<and> walk adj src x r \<and>
           (x \<noteq> src \<longrightarrow>
              (\<exists>u' ru' w'. u' \<in> done_nodes s \<and> u' < length adj \<and> prev ?s' ! x = int u'
                 \<and> dist ?s' ! u' = Fin ru'
                 \<and> (x, Fin w') \<in> set (adj ! u') \<and> 0 < w' \<and> dadd (Fin ru') (Fin w') = Fin r)))"
      proof (cases "x = v")
        case True
        have wv: "walk adj src v rn"
          using walk_edge [OF wu u(1), of v rw rn] e vw rw(1) rn(1) by simp
        have pv: "prev ?s' ! v = int u" using v len u31 by simp
        have "u \<in> done_nodes s \<and> u < length adj \<and> prev ?s' ! v = int u \<and> dist ?s' ! u = Fin ru
                 \<and> (v, Fin rw) \<in> set (adj ! u) \<and> 0 < rw \<and> dadd (Fin ru) (Fin rw) = Fin rn"
          using ud u(1) pv dx [of u] vu u(2) e vw rw rn(1) by simp
        then have "\<exists>u' ru' w'. u' \<in> done_nodes s \<and> u' < length adj \<and> prev ?s' ! v = int u'
                 \<and> dist ?s' ! u' = Fin ru'
                 \<and> (v, Fin w') \<in> set (adj ! u') \<and> 0 < w' \<and> dadd (Fin ru') (Fin w') = Fin rn"
          by blast
        with True dvn rn0 rn(3) wv show ?thesis by blast
      next
        case False
        from c(2) x have old: "(dist s ! x = PInf \<and> prev s ! x = - 1) \<or>
          (\<exists>r. dist s ! x = Fin r \<and> 0 \<le> r \<and> round64 r = Fin r \<and> walk adj src x r \<and>
           (x \<noteq> src \<longrightarrow>
              (\<exists>u' ru' w'. u' \<in> done_nodes s \<and> u' < length adj \<and> prev s ! x = int u'
                 \<and> dist s ! u' = Fin ru'
                 \<and> (x, Fin w') \<in> set (adj ! u') \<and> 0 < w' \<and> dadd (Fin ru') (Fin w') = Fin r)))"
          by (simp add: dist_inv_def)
        then show ?thesis
        proof
          assume "dist s ! x = PInf \<and> prev s ! x = - 1"
          with False show ?thesis by simp
        next
          assume "\<exists>r. dist s ! x = Fin r \<and> 0 \<le> r \<and> round64 r = Fin r \<and> walk adj src x r \<and>
           (x \<noteq> src \<longrightarrow>
              (\<exists>u' ru' w'. u' \<in> done_nodes s \<and> u' < length adj \<and> prev s ! x = int u'
                 \<and> dist s ! u' = Fin ru'
                 \<and> (x, Fin w') \<in> set (adj ! u') \<and> 0 < w' \<and> dadd (Fin ru') (Fin w') = Fin r))"
          then obtain r where r: "dist s ! x = Fin r" "0 \<le> r" "round64 r = Fin r" "walk adj src x r"
            and pr: "x \<noteq> src \<longrightarrow>
              (\<exists>u' ru' w'. u' \<in> done_nodes s \<and> u' < length adj \<and> prev s ! x = int u'
                 \<and> dist s ! u' = Fin ru'
                 \<and> (x, Fin w') \<in> set (adj ! u') \<and> 0 < w' \<and> dadd (Fin ru') (Fin w') = Fin r)"
            by blast
          have "x \<noteq> src \<longrightarrow>
              (\<exists>u' ru' w'. u' \<in> done_nodes s \<and> u' < length adj \<and> prev ?s' ! x = int u'
                 \<and> dist ?s' ! u' = Fin ru'
                 \<and> (x, Fin w') \<in> set (adj ! u') \<and> 0 < w' \<and> dadd (Fin ru') (Fin w') = Fin r)"
          proof
            assume "x \<noteq> src"
            with pr obtain u' ru' w' where p: "u' \<in> done_nodes s" "u' < length adj"
              "prev s ! x = int u'" "dist s ! u' = Fin ru'" "(x, Fin w') \<in> set (adj ! u')" "0 < w'"
              "dadd (Fin ru') (Fin w') = Fin r"
              by blast
            from p(1) vnd have "u' \<noteq> v" by auto
            then have "dist ?s' ! u' = Fin ru'" using p(4) by simp
            moreover have "prev ?s' ! x = int u'" using p(3) False by simp
            ultimately show "\<exists>u' ru' w'. u' \<in> done_nodes s \<and> u' < length adj \<and> prev ?s' ! x = int u'
                 \<and> dist ?s' ! u' = Fin ru'
                 \<and> (x, Fin w') \<in> set (adj ! u') \<and> 0 < w' \<and> dadd (Fin ru') (Fin w') = Fin r"
              using p(1,2,5,6,7) by blast
          qed
          moreover have "dist ?s' ! x = Fin r" using r(1) False by simp
          ultimately show ?thesis using r(2,3,4) by blast
        qed
      qed
    qed
    have p: "pq_inv adj ?s'"
      unfolding pq_inv_def
    proof (intro conjI allI impI)
      show "distinct (pq ?s')" using c(3) newpq by (simp add: pq_inv_def)
    next
      fix k x assume "(k, x) \<in> set (pq ?s')"
      then have kx: "(k, x) \<in> set (pq s) \<or> (k, x) = (Fin rn, v)" by auto
      then show "x < length adj"
        using c(3) v by (auto simp: pq_inv_def)
      from kx show "\<exists>r r'. k = Fin r \<and> dist ?s' ! x = Fin r' \<and> r' \<le> r"
      proof
        assume "(k, x) = (Fin rn, v)"
        with dvn show ?thesis by simp
      next
        assume "(k, x) \<in> set (pq s)"
        with c(3) obtain r r' where o: "k = Fin r" "dist s ! x = Fin r'" "r' \<le> r"
          unfolding pq_inv_def by blast
        show ?thesis
        proof (cases "x = v")
          case True
          with o dv have "rn \<le> r" by auto
          with True o(1) dvn show ?thesis by simp
        next
          case False
          with o show ?thesis by simp
        qed
      qed
    qed
    have le_u: "\<And>x. x \<in> done_nodes s \<Longrightarrow> \<exists>rx. dist s ! x = Fin rx \<and> rx \<le> ru"
    proof -
      fix x assume x: "x \<in> done_nodes s"
      then obtain rx where "dist s ! x = Fin rx" by (auto simp: done_nodes_def)
      moreover from le x have "dle (dist s ! x) (Fin ru)" by (simp add: u(2))
      ultimately show "\<exists>rx. dist s ! x = Fin rx \<and> rx \<le> ru" by simp
    qed
    have dl: "done_le ?s'"
      unfolding done_le_def dn
    proof (intro ballI allI impI)
      fix x k y assume x: "x \<in> done_nodes s" and ky: "(k, y) \<in> set (pq ?s')"
      from x vnd have xv: "x \<noteq> v" by auto
      from ky have "(k, y) \<in> set (pq s) \<or> k = Fin rn" by auto
      then show "dle (dist ?s' ! x) k"
      proof
        assume "(k, y) \<in> set (pq s)"
        with c(4) x xv show ?thesis by (auto simp: done_le_def)
      next
        assume "k = Fin rn"
        with le_u [OF x] xv rn(2) show ?thesis by auto
      qed
    qed
    have o: "ord_inv ord ?s'"
      unfolding ord_inv_def dn
    proof (intro conjI allI impI)
      from oi show "distinct ord" "set ord = done_nodes s" by (simp_all add: ord_inv_def)
    next
      fix j i assume j: "j < length ord" and pi: "prev ?s' ! (ord ! j) = int i"
      from oi j have "ord ! j \<in> done_nodes s" by (auto simp: ord_inv_def)
      with vnd have "ord ! j \<noteq> v" by auto
      with pi have "prev s ! (ord ! j) = int i" by simp
      with oi j show "\<exists>k<j. ord ! k = i" by (simp add: ord_inv_def)
    qed
    have m1: "u \<in> done_nodes ?s'" using ud dn by simp
    have m2: "\<forall>x\<in>done_nodes ?s'. dle (dist ?s' ! x) (dist ?s' ! u)"
      unfolding dn
    proof
      fix x assume x: "x \<in> done_nodes s"
      with vnd have "x \<noteq> v" by auto
      with le x vu show "dle (dist ?s' ! x) (dist ?s' ! u)" by simp
    qed
    have m3: "\<forall>x\<in>done_nodes ?s'. \<forall>e'\<in>set (adj ! x). (x = u \<and> e' \<in> set es) \<or> relaxed ?s' x e'"
      unfolding dn
    proof (intro ballI)
      fix x e' assume x: "x \<in> done_nodes s" and e': "e' \<in> set (adj ! x)"
      from x vnd have xv: "x \<noteq> v" by auto
      from rel x e' have "(x = u \<and> e' = e) \<or> (x = u \<and> e' \<in> set es) \<or> relaxed s x e'" by auto
      then show "(x = u \<and> e' \<in> set es) \<or> relaxed ?s' x e'"
      proof (elim disjE)
        assume "x = u \<and> e' = e"
        then have "relaxed ?s' x e'"
          using vw rn(1) u(2) vu dvn by (simp add: relaxed_def)
        then show ?thesis by simp
      next
        assume "x = u \<and> e' \<in> set es"
        then show ?thesis by simp
      next
        assume old: "relaxed s x e'"
        have "relaxed ?s' x e'"
        proof (cases "fst e' = v")
          case True
          show ?thesis
            unfolding relaxed_def
          proof
            assume "dlt (dadd (dist ?s' ! x) (snd e')) (dist ?s' ! fst e')"
            then have "dlt (dadd (dist s ! x) (snd e')) (Fin rn)"
              using True xv dvn by simp
            from dlt_lower [OF this dv] old True show False by (simp add: relaxed_def)
          qed
        next
          case False
          with old xv show ?thesis by (simp add: relaxed_def)
        qed
        then show ?thesis by simp
      qed
    qed
    from b di p dl o m1 m2 m3 have "mid adj src ord u es ?s'" by (simp add: mid_def core_def)
    with r dn show ?thesis by blast
  qed
qed

lemma relax_edges_mid:
  "mid adj src ord u es s \<Longrightarrow> set es \<subseteq> set (adj ! u) \<Longrightarrow>
   \<exists>s'. relax_edges u es s = Inr s' \<and> mid adj src ord u [] s' \<and> done_nodes s' = done_nodes s"
proof (induction es arbitrary: s)
  case Nil
  then show ?case by simp
next
  case (Cons e es)
  from Cons.prems(2) have e: "e \<in> set (adj ! u)" and es: "set es \<subseteq> set (adj ! u)" by simp_all
  from relax_mid [OF Cons.prems(1) e] obtain s1 where
    s1: "relax u e s = Inr s1" "mid adj src ord u es s1" "done_nodes s1 = done_nodes s" by blast
  from Cons.IH [OF s1(2) es] obtain s' where
    "relax_edges u es s1 = Inr s'" "mid adj src ord u [] s'" "done_nodes s' = done_nodes s1" by blast
  with s1 show ?case by simp
qed

lemma mid_loop_inv: "mid adj src ord u [] s \<Longrightarrow> loop_inv adj src ord s"
  by (simp add: mid_def loop_inv_def)

subsection \<open>The loop of Dijkstra ends\<close>

lemma loop_total:
  assumes "loop_inv adj src ord s"
  shows "\<exists>s' ord'. dijkstra_loop adj s = Some (Inr s') \<and> loop_inv adj src ord' s' \<and> pq s' = []"
  using assms
proof (induction s arbitrary: ord rule: wf_induct_rule [OF wf_measures
        [of "[\<lambda>s. card {x. x < length adj \<and> x \<notin> done_nodes s}, \<lambda>s. length (pq s)]"]])
  case (1 s)
  note inv = "1.prems"
  show ?case
  proof (cases "pq s = []")
    case True
    with inv show ?thesis by (auto simp add: dijkstra_loop.simps [of adj s])
  next
    case ne: False
    let ?u = "snd (pq_top (pq s))"
    let ?d = "fst (pq_top (pq s))"
    let ?s1 = "s\<lparr>pq := pq_pop (pq s)\<rparr>"
    from inv have c: "base_inv adj src s" "pq_inv adj s" by (simp_all add: loop_inv_def core_def)
    note pf = pop_facts [OF c(2) ne]
    from pf(2) c(1) have un: "?u < length (dist s)" "?u < length adj" by (simp_all add: base_inv_def)
    show ?thesis
    proof (cases "dgt ?d (dist s ! ?u)")
      case True
      note ps = pop_stale [OF inv ne True]
      have "(?s1, s) \<in> measures [\<lambda>s. card {x. x < length adj \<and> x \<notin> done_nodes s}, \<lambda>s. length (pq s)]"
        using ps(2) pf(7) by simp
      from "1.IH" [OF this ps(1)] obtain s' ord' where
        s': "dijkstra_loop adj ?s1 = Some (Inr s')" "loop_inv adj src ord' s'" "pq s' = []" by blast
      have "dijkstra_loop adj s = dijkstra_loop adj ?s1"
        using ne un True by (simp add: dijkstra_loop.simps [of adj s] Let_def)
      with s' show ?thesis by auto
    next
      case False
      note pf2 = pop_fresh [OF inv ne False]
      from relax_edges_mid [OF pf2(1)] obtain s2 where
        s2: "relax_edges ?u (adj ! ?u) ?s1 = Inr s2" "mid adj src (ord @ [?u]) ?u [] s2"
          "done_nodes s2 = done_nodes ?s1" by blast
      have "{x. x < length adj \<and> x \<notin> done_nodes s2} \<subset> {x. x < length adj \<and> x \<notin> done_nodes s}"
        using s2(3) pf2(2,3) un(2) by auto
      then have "card {x. x < length adj \<and> x \<notin> done_nodes s2} < card {x. x < length adj \<and> x \<notin> done_nodes s}"
        by (intro psubset_card_mono) simp_all
      then have "(s2, s) \<in> measures [\<lambda>s. card {x. x < length adj \<and> x \<notin> done_nodes s}, \<lambda>s. length (pq s)]"
        by simp
      from "1.IH" [OF this mid_loop_inv [OF s2(2)]] obtain s' ord' where
        s': "dijkstra_loop adj s2 = Some (Inr s')" "loop_inv adj src ord' s'" "pq s' = []" by blast
      have "dijkstra_loop adj s = dijkstra_loop adj s2"
        using ne un False s2(1) by (simp add: dijkstra_loop.simps [of adj s] Let_def)
      with s' show ?thesis by auto
    qed
  qed
qed

lemma final_lower:
  assumes inv: "loop_inv adj src ord s" and e: "pq s = []" and w: "walk adj src v r"
  shows "\<exists>r'. dist s ! v = Fin r' \<and> r' \<le> r"
  using w
proof (induction rule: walk.induct)
  case walk_src
  from inv show ?case by (simp add: loop_inv_def core_def base_inv_def)
next
  case (walk_edge u r v w r')
  from inv have c: "base_inv adj src s" "dist_inv adj src s"
    and rel: "\<forall>x\<in>done_nodes s. \<forall>e\<in>set (adj ! x). relaxed s x e"
    by (simp_all add: loop_inv_def core_def)
  from walk_edge.IH obtain ru where ru: "dist s ! u = Fin ru" "ru \<le> r" by blast
  from c(2) walk_edge.hyps(2) ru(1) have ru0: "0 \<le> ru" by (auto simp: dist_inv_def)
  from ru(1) walk_edge.hyps(2) c(1) e have "u \<in> done_nodes s"
    by (simp add: done_nodes_def base_inv_def)
  with rel walk_edge.hyps(3) have nl: "\<not> dlt (round64 (ru + w)) (dist s ! v)"
    using ru(1) by (fastforce simp: relaxed_def)
  from c(1) walk_edge.hyps(2,3) have vw: "v < length adj" "0 < w"
    using graph_ok_edge [of adj "length adj" u "(v, Fin w)"] by (simp_all add: base_inv_def)
  have pos: "0 < ru + w" using ru0 vw(2) by simp
  have "dle (round64 (ru + w)) (round64 (r + w))"
    using pos ru(2) by (intro round64_mono) simp_all
  then have "dle (round64 (ru + w)) (Fin r')" using walk_edge.hyps(4) by simp
  with round64_pos [OF pos] obtain x where x: "round64 (ru + w) = Fin x" "x \<le> r'" by auto
  from vw(1) c(2) have "dist s ! v = PInf \<or> (\<exists>rv. dist s ! v = Fin rv)"
    by (auto simp: dist_inv_def)
  with nl x show ?case by auto
qed

subsection \<open>The result of Dijkstra\<close>

lemma final_tree:
  assumes inv: "loop_inv adj src ord s" and e: "pq s = []"
  shows "tree_ok adj src ord (result_of s)"
proof -
  from inv have c: "base_inv adj src s" "dist_inv adj src s" and oi: "ord_inv ord s"
    by (simp_all add: loop_inv_def core_def)
  from c(1) have len: "length (dist s) = length adj" by (simp add: base_inv_def)
  from oi have os: "set ord = done_nodes s"
    and op: "\<forall>j<length ord. \<forall>i. prev s ! (ord ! j) = int i \<longrightarrow> (\<exists>k<j. ord ! k = i)"
    by (simp_all add: ord_inv_def)
  have all: "v \<in> set ord" if "v < length adj" "dist s ! v = Fin r" for v r
    using that e len os by (simp add: done_nodes_def)
  have tree: "ord ! j < length adj \<and>
            (ord ! j \<noteq> src \<longrightarrow>
               (\<exists>k<j. \<exists>w. prev s ! (ord ! j) = int (ord ! k) \<and> tree_hop adj (dist s) (ord ! k) (ord ! j) w))"
    if j: "j < length ord" for j
  proof
    from j os have dj: "ord ! j \<in> done_nodes s" by (metis nth_mem)
    then obtain r where r: "ord ! j < length adj" "dist s ! (ord ! j) = Fin r"
      using len by (auto simp: done_nodes_def)
    show "ord ! j < length adj" by (rule r(1))
    show "ord ! j \<noteq> src \<longrightarrow>
               (\<exists>k<j. \<exists>w. prev s ! (ord ! j) = int (ord ! k) \<and> tree_hop adj (dist s) (ord ! k) (ord ! j) w)"
    proof
      assume ns: "ord ! j \<noteq> src"
      from c(2) r ns obtain u ru w where p: "u < length adj" "prev s ! (ord ! j) = int u"
        "dist s ! u = Fin ru" "(ord ! j, Fin w) \<in> set (adj ! u)" "dadd (Fin ru) (Fin w) = Fin r"
        unfolding dist_inv_def by fastforce
      from op j p(2) obtain k where k: "k < j" "ord ! k = u" by blast
      have "tree_hop adj (dist s) (ord ! k) (ord ! j) w"
        using p r(2) k(2) by (simp add: tree_hop_def)
      with k p(2) show "\<exists>k<j. \<exists>w. prev s ! (ord ! j) = int (ord ! k)
          \<and> tree_hop adj (dist s) (ord ! k) (ord ! j) w" by blast
    qed
  qed
  from c(1) all tree show ?thesis
    by (simp add: tree_ok_def result_of_def base_inv_def graph_ok_def)
qed

lemma final_dist:
  assumes inv: "loop_inv adj src ord s" and e: "pq s = []" and v: "v < length adj"
  shows "(\<exists>r. dist s ! v = Fin r \<and> shortest adj src v r)
       \<or> (dist s ! v = PInf \<and> prev s ! v = - 1 \<and> (\<forall>r. \<not> walk adj src v r))"
proof -
  from inv have "dist_inv adj src s" by (simp add: loop_inv_def core_def)
  with v have "(dist s ! v = PInf \<and> prev s ! v = - 1) \<or> (\<exists>r. dist s ! v = Fin r \<and> walk adj src v r)"
    unfolding dist_inv_def by blast
  then show ?thesis
  proof
    assume i: "dist s ! v = PInf \<and> prev s ! v = - 1"
    have "\<not> walk adj src v r" for r
      using final_lower [OF inv e, of v r] i by auto
    with i show ?thesis by simp
  next
    assume "\<exists>r. dist s ! v = Fin r \<and> walk adj src v r"
    then obtain r where r: "dist s ! v = Fin r" "walk adj src v r" by blast
    have "r \<le> r'" if "walk adj src v r'" for r'
      using final_lower [OF inv e that] r(1) by simp
    with r show ?thesis by (auto simp: shortest_def)
  qed
qed

lemma Dijkstra_total:
  assumes "graph_ok adj n" "src < n"
  shows "\<exists>s ord. Dijkstra src n adj = Some (Inr (result_of s)) \<and> loop_inv adj src ord s \<and> pq s = []"
proof -
  from loop_total [OF init_inv [OF assms]] obtain s ord where
    "dijkstra_loop adj \<lparr>dist = (replicate n PInf)[src := Fin 0], prev = replicate n (- 1),
            pq = [(Fin 0, src)]\<rparr> = Some (Inr s)" "loop_inv adj src ord s" "pq s = []" by blast
  with assms(2) show ?thesis by (auto simp: Dijkstra_def)
qed

lemma to_u32_int: "v < 2 ^ 31 \<Longrightarrow> to_u32 (int v) = v"
  by (simp add: to_u32_def nat_mod_distrib)

lemma walk_back_tree:
  assumes t: "tree_ok adj src ord res"
  shows "j < length ord \<Longrightarrow>
    \<exists>p. walk_back (prev res) (int (ord ! j)) acc = Some (Inr (acc @ p)) \<and> p \<noteq> []
       \<and> hd p = ord ! j \<and> last p = src
       \<and> (\<forall>i. i + 1 < length p \<longrightarrow> (\<exists>w. tree_hop adj (dist res) (p ! (i + 1)) (p ! i) w))"
proof (induction j arbitrary: acc rule: less_induct)
  case (less j)
  let ?v = "ord ! j"
  from t have n31: "length adj \<le> 2 ^ 31" and lp: "length (prev res) = length adj"
    and ps: "prev res ! src = - 1" by (simp_all add: tree_ok_def)
  from t less.prems have vn: "?v < length adj" by (simp add: tree_ok_def)
  with n31 have v31: "?v < 2 ^ 31" by simp
  have step: "walk_back (prev res) (int ?v) acc = walk_back (prev res) (prev res ! ?v) (acc @ [?v])"
    using vn lp to_u32_int [OF v31]
    by (simp add: walk_back.simps [of "prev res" "int ?v"])
  show ?case
  proof (cases "?v = src")
    case True
    with step ps have "walk_back (prev res) (int ?v) acc = Some (Inr (acc @ [?v]))"
      by (simp add: walk_back.simps [of "prev res" "- 1"])
    with True show ?thesis by (intro exI [of _ "[?v]"]) simp
  next
    case False
    with t less.prems obtain k w where p: "k < j" "prev res ! ?v = int (ord ! k)"
      "tree_hop adj (dist res) (ord ! k) ?v w"
      unfolding tree_ok_def by blast
    from p(1) less.prems have kl: "k < length ord" by simp
    from less.IH [OF p(1) kl, of "acc @ [?v]"] obtain p' where
      p': "walk_back (prev res) (int (ord ! k)) (acc @ [?v]) = Some (Inr ((acc @ [?v]) @ p'))" "p' \<noteq> []"
        "hd p' = ord ! k" "last p' = src"
        "\<forall>i. i + 1 < length p' \<longrightarrow> (\<exists>w. tree_hop adj (dist res) (p' ! (i + 1)) (p' ! i) w)"
      by blast
    have hops: "\<exists>w. tree_hop adj (dist res) ((?v # p') ! (i + 1)) ((?v # p') ! i) w"
      if "i + 1 < length (?v # p')" for i
    proof (cases i)
      case 0
      with p(3) p'(2,3) show ?thesis by (cases p') auto
    next
      case (Suc j)
      with that p'(5) show ?thesis by simp
    qed
    from step p(2) p'(1) have "walk_back (prev res) (int ?v) acc = Some (Inr (acc @ (?v # p')))"
      by simp
    with p'(2,4) hops show ?thesis
      by (intro exI [of _ "?v # p'"]) simp
  qed
qed

subsection \<open>Shortest paths and derived paths\<close>

lemma GetPath_tree:
  assumes t: "tree_ok adj src ord res" and d: "dst < length adj"
    and fin: "dist res ! dst = PInf \<or> (\<exists>r. dist res ! dst = Fin r)"
  shows "\<exists>q. GetPath src dst res = Some (Inr q) \<and> ((q = []) = (dist res ! dst = PInf))
      \<and> (q \<noteq> [] \<longrightarrow> hd q = src \<and> last q = dst
            \<and> (\<forall>i. i + 1 < length q \<longrightarrow> (\<exists>w. tree_hop adj (dist res) (q ! i) (q ! (i + 1)) w)))"
proof -
  from t have n31: "length adj \<le> 2 ^ 31" and ld: "length (dist res) = length adj"
    by (simp_all add: tree_ok_def)
  from fin show ?thesis
  proof
    assume "dist res ! dst = PInf"
    with d ld show ?thesis by (simp add: GetPath_def)
  next
    assume "\<exists>r. dist res ! dst = Fin r"
    then obtain r where r: "dist res ! dst = Fin r" by blast
    with t d have "dst \<in> set ord" unfolding tree_ok_def by blast
    then obtain j where j: "j < length ord" "ord ! j = dst" by (auto simp: in_set_conv_nth)
    from walk_back_tree [OF t j(1), of "[]"] j(2) obtain p where
      p: "walk_back (prev res) (int dst) [] = Some (Inr p)" "p \<noteq> []" "hd p = dst" "last p = src"
        "\<forall>i. i + 1 < length p \<longrightarrow> (\<exists>w. tree_hop adj (dist res) (p ! (i + 1)) (p ! i) w)"
      by auto
    have ti: "to_int dst = int dst" using d n31 by (intro to_int_small) simp
    have g: "GetPath src dst res = Some (Inr (rev p))"
      using d ld r p(1) ti by (simp add: GetPath_def)
    have hops: "\<exists>w. tree_hop adj (dist res) (rev p ! i) (rev p ! (i + 1)) w" if i: "i + 1 < length (rev p)" for i
    proof -
      let ?j = "length p - 2 - i"
      from i have j: "?j + 1 < length p" by simp
      have a: "rev p ! i = p ! (?j + 1)"
      proof -
        from i have "i < length p" by simp
        then have "rev p ! i = p ! (length p - Suc i)" by (rule rev_nth)
        moreover from i have "length p - Suc i = ?j + 1" by simp
        ultimately show ?thesis by simp
      qed
      have b: "rev p ! (i + 1) = p ! ?j"
      proof -
        from i have "i + 1 < length p" by simp
        then have "rev p ! (i + 1) = p ! (length p - Suc (i + 1))" by (rule rev_nth)
        moreover from i have "length p - Suc (i + 1) = ?j" by simp
        ultimately show ?thesis by simp
      qed
      from p(5) j show ?thesis unfolding a b by blast
    qed
    from g p(2,3,4) r hops show ?thesis
      by (intro exI [of _ "rev p"]) (simp add: hd_rev last_rev)
  qed
qed

lemma hops_weights:
  assumes q: "q \<noteq> []" and z: "d ! (q ! 0) = Fin 0"
    and h: "\<forall>i. i + 1 < length q \<longrightarrow> (\<exists>w. tree_hop adj d (q ! i) (q ! (i + 1)) w)"
  shows "\<exists>ws. length q = length ws + 1
      \<and> (\<forall>i<length ws. q ! i < length adj \<and> (q ! (i + 1), Fin (ws ! i)) \<in> set (adj ! (q ! i))
            \<and> d ! (q ! (i + 1)) = dadd (d ! (q ! i)) (Fin (ws ! i)))
      \<and> (\<forall>k<length q. d ! (q ! k) = foldl dadd (Fin 0) (map Fin (take k ws)))
      \<and> (\<forall>i k. i \<le> k \<and> k < length q \<longrightarrow>
            d ! (q ! k) = foldl dadd (d ! (q ! i)) (map Fin (take (k - i) (drop i ws))))"
proof -
  from h have "\<forall>i. \<exists>w. i + 1 < length q \<longrightarrow> tree_hop adj d (q ! i) (q ! (i + 1)) w" by blast
  then obtain f where f: "\<forall>i. i + 1 < length q \<longrightarrow> tree_hop adj d (q ! i) (q ! (i + 1)) (f i)"
    by metis
  let ?ws = "map f [0..<length q - 1]"
  have l: "length q = length ?ws + 1" using q by (cases q) simp_all
  have e: "\<forall>i<length ?ws. q ! i < length adj \<and> (q ! (i + 1), Fin (?ws ! i)) \<in> set (adj ! (q ! i))
            \<and> d ! (q ! (i + 1)) = dadd (d ! (q ! i)) (Fin (?ws ! i))"
  proof (intro allI impI)
    fix i assume i: "i < length ?ws"
    then have w: "?ws ! i = f i" by simp
    from i f have "tree_hop adj d (q ! i) (q ! (i + 1)) (f i)" by simp
    then obtain ra rb where "q ! i < length adj" "(q ! (i + 1), Fin (f i)) \<in> set (adj ! (q ! i))"
      "d ! (q ! i) = Fin ra" "d ! (q ! (i + 1)) = Fin rb" "dadd (Fin ra) (Fin (f i)) = Fin rb"
      unfolding tree_hop_def by blast
    then show "q ! i < length adj \<and> (q ! (i + 1), Fin (?ws ! i)) \<in> set (adj ! (q ! i))
            \<and> d ! (q ! (i + 1)) = dadd (d ! (q ! i)) (Fin (?ws ! i))"
      unfolding w by simp
  qed
  have s: "d ! (q ! k) = foldl dadd (Fin 0) (map Fin (take k ?ws))" if "k < length q" for k
    using that
  proof (induction k)
    case 0
    with z show ?case by simp
  next
    case (Suc k)
    then have k: "k + 1 < length q" and ih: "d ! (q ! k) = foldl dadd (Fin 0) (map Fin (take k ?ws))"
      by simp_all
    from k have kw: "k < length ?ws" by simp
    from e kw have "d ! (q ! (k + 1)) = dadd (d ! (q ! k)) (Fin (?ws ! k))" by blast
    moreover have "take (Suc k) ?ws = take k ?ws @ [?ws ! k]"
      using kw by (simp only: take_Suc_conv_app_nth)
    ultimately show ?case using ih by simp
  qed
  have sub: "d ! (q ! (i + m)) = foldl dadd (d ! (q ! i)) (map Fin (take m (drop i ?ws)))"
    if "i + m < length q" for i m
    using that
  proof (induction m)
    case 0
    show ?case by simp
  next
    case (Suc m)
    then have k: "i + m + 1 < length q"
      and ih: "d ! (q ! (i + m)) = foldl dadd (d ! (q ! i)) (map Fin (take m (drop i ?ws)))"
      by simp_all
    from k have kw: "i + m < length ?ws" by simp
    then have md: "m < length (drop i ?ws)" by simp
    from e kw have "d ! (q ! (i + m + 1)) = dadd (d ! (q ! (i + m))) (Fin (?ws ! (i + m)))" by blast
    moreover have "take (Suc m) (drop i ?ws) = take m (drop i ?ws) @ [drop i ?ws ! m]"
      using md by (simp only: take_Suc_conv_app_nth)
    moreover have "drop i ?ws ! m = ?ws ! (i + m)" using kw by (simp only: nth_drop)
    ultimately show ?case using ih by simp
  qed
  have s2: "\<forall>i k. i \<le> k \<and> k < length q \<longrightarrow>
            d ! (q ! k) = foldl dadd (d ! (q ! i)) (map Fin (take (k - i) (drop i ?ws)))"
  proof (intro allI impI)
    fix i k assume ik: "i \<le> k \<and> k < length q"
    then have "i + (k - i) < length q" by simp
    from sub [OF this] ik
    show "d ! (q ! k) = foldl dadd (d ! (q ! i)) (map Fin (take (k - i) (drop i ?ws)))" by simp
  qed
  from l e s s2 show ?thesis by blast
qed

lemma Dijkstra_example:
  "Dijkstra 0 3 [[(1, Fin 2)], [(0, Fin 2)], []]
     = Some (Inr \<lparr>dist = [Fin 0, Fin 2, PInf], prev = [- 1, 0, - 1]\<rparr>)"
  by (simp add: Dijkstra_def dijkstra_loop.simps pq_top_def pq_pop_def pair_lt_def dgt_def relax_def
      to_int_def result_of_def Let_def numeral_3_eq_3)

lemma GetPath_example:
  "GetPath 0 1 \<lparr>dist = [Fin 0, Fin 2, PInf], prev = [- 1, 0, - 1]\<rparr> = Some (Inr [0, 1])
   \<and> GetPath 0 2 \<lparr>dist = [Fin 0, Fin 2, PInf], prev = [- 1, 0, - 1]\<rparr> = Some (Inr [])"
  by (simp add: GetPath_def walk_back.simps to_int_def to_u32_def)

lemma replicate_numeral: "replicate (numeral k) x = x # replicate (pred_numeral k) x"
  by (simp add: numeral_eq_Suc)

lemma list_update_numeral: "(x # xs)[numeral k := y] = x # xs[pred_numeral k := y]"
  by (simp add: numeral_eq_Suc)

text \<open>A sum that is rounded: with the doubles nearest to \<open>0.1\<close>, \<open>0.2\<close> and
  \<open>0.30000000000000004\<close> as delays of the edges \<open>0 \<rightarrow> 1\<close>, \<open>1 \<rightarrow> 2\<close> and \<open>0 \<rightarrow> 2\<close>, the sum of the
  first two is the third, and node \<open>2\<close> keeps the predecessor \<open>0\<close>.\<close>

lemma round64_tenths:
  "round64 (3602879701896397 / 36028797018963968) = Fin (3602879701896397 / 36028797018963968)"
  "round64 (1351079888211149 / 4503599627370496) = Fin (1351079888211149 / 4503599627370496)"
  "round64 (10808639105689191 / 36028797018963968) = Fin (1351079888211149 / 4503599627370496)"
proof -
  show "round64 (3602879701896397 / 36028797018963968) = Fin (3602879701896397 / 36028797018963968)"
    by (subst round64_eval [of _ "- 4"]) (simp_all add: pow2_def rne_def Let_def)
  show "round64 (1351079888211149 / 4503599627370496) = Fin (1351079888211149 / 4503599627370496)"
    by (subst round64_eval [of _ "- 2"]) (simp_all add: pow2_def rne_def Let_def)
  show "round64 (10808639105689191 / 36028797018963968) = Fin (1351079888211149 / 4503599627370496)"
    by (subst round64_eval [of _ "- 2"]) (simp_all add: pow2_def rne_def Let_def)
qed

lemma Dijkstra_tenths:
  "Dijkstra 0 3 [[(1, Fin (3602879701896397 / 36028797018963968)),
                  (2, Fin (1351079888211149 / 4503599627370496))],
                 [(2, Fin (3602879701896397 / 18014398509481984))], []]
     = Some (Inr \<lparr>dist = [Fin 0, Fin (3602879701896397 / 36028797018963968),
                           Fin (1351079888211149 / 4503599627370496)], prev = [- 1, 0, 0]\<rparr>)"
  by (simp add: Dijkstra_def dijkstra_loop.simps pq_top_def pq_pop_def pair_lt_def dgt_def relax_def
      to_int_def result_of_def Let_def replicate_numeral list_update_numeral round64_tenths)

text \<open>Sums of doubles that are not the exact sums: \<open>2 ^ 53 + 1\<close> lies midway between the
  doubles \<open>2 ^ 53\<close> and \<open>2 ^ 53 + 2\<close> and is rounded to the first, whose significand is
  even.\<close>

lemma round64_examples:
  "round64 9007199254740993 = Fin 9007199254740992"
  "round64 9007199254740994 = Fin 9007199254740994"
  "round64 18014398509481984 = Fin 18014398509481984"
proof -
  show "round64 9007199254740993 = Fin 9007199254740992"
    by (subst round64_eval [of _ 53]) (simp_all add: pow2_def rne_def Let_def)
  show "round64 9007199254740994 = Fin 9007199254740994"
    by (subst round64_eval [of _ 53]) (simp_all add: pow2_def rne_def Let_def)
  show "round64 18014398509481984 = Fin 18014398509481984"
    by (subst round64_eval [of _ 54]) (simp_all add: pow2_def rne_def Let_def)
qed






subsection \<open>Predecessors are neighbours, on any adjacency list\<close>

lemma relax_prev_edges:
  assumes "prev_edges adj (prev s)" "u < length adj" "e \<in> set (adj ! u)" "relax u e s = Inr s'"
  shows "prev_edges adj (prev s') \<and> length (prev s') = length (prev s)"
proof (cases "fst e < length (dist s) \<and> fst e < length (prev s) \<and> dlt (dadd (dist s ! u) (snd e)) (dist s ! fst e)")
  case False
  with assms(4) have "s' = s" by (auto simp: relax_def split: if_splits)
  with assms(1) show ?thesis by simp
next
  case True
  with assms(4) have p: "prev s' = (prev s)[fst e := to_int u]" by (auto simp: relax_def)
  have "has_edge adj u (fst e)" using assms(2,3) by (auto simp: has_edge_def)
  with assms(1) True show ?thesis
    unfolding p prev_edges_def by (auto simp: nth_list_update)
qed

lemma relax_edges_prev_edges:
  "prev_edges adj (prev s) \<Longrightarrow> u < length adj \<Longrightarrow> set es \<subseteq> set (adj ! u) \<Longrightarrow>
   relax_edges u es s = Inr s' \<Longrightarrow> prev_edges adj (prev s') \<and> length (prev s') = length (prev s)"
proof (induction es arbitrary: s)
  case Nil
  then show ?case by simp
next
  case (Cons e es)
  from Cons.prems(4) obtain s1 where s1: "relax u e s = Inr s1" "relax_edges u es s1 = Inr s'"
    by (auto split: sum.splits)
  from Cons.prems(3) have e: "e \<in> set (adj ! u)" and es: "set es \<subseteq> set (adj ! u)" by simp_all
  from relax_prev_edges [OF Cons.prems(1,2) e s1(1)]
  have a: "prev_edges adj (prev s1)" "length (prev s1) = length (prev s)" by simp_all
  from Cons.IH [OF a(1) Cons.prems(2) es s1(2)] a(2) show ?case by simp
qed

lemma loop_prev_edges_aux:
  assumes "dijkstra_loop adj s = Some y"
  shows "\<forall>s'. prev_edges adj (prev s) \<longrightarrow> y = Inr s' \<longrightarrow>
     prev_edges adj (prev s') \<and> length (prev s') = length (prev s)"
proof (rule dijkstra_loop.raw_induct
    [where P = "\<lambda>adj s y. \<forall>s'. prev_edges adj (prev s) \<longrightarrow> y = Inr s' \<longrightarrow>
       prev_edges adj (prev s') \<and> length (prev s') = length (prev s)", OF _ assms], goal_cases)
  case (1 loop adj s y)
  show ?case
  proof (intro allI impI)
    fix s' assume pe: "prev_edges adj (prev s)" and y: "y = Inr s'"
    show "prev_edges adj (prev s') \<and> length (prev s') = length (prev s)"
    proof (cases "pq s = []")
      case True
      with 1(2) pe y show ?thesis by simp
    next
      case ne: False
      let ?u = "snd (pq_top (pq s))"
      let ?s1 = "s\<lparr>pq := pq_pop (pq s)\<rparr>"
      from 1(2) ne y have u: "?u < length (dist s)"
        by (auto simp: Let_def split: if_splits)
      show ?thesis
      proof (cases "dgt (fst (pq_top (pq s))) (dist s ! ?u)")
        case True
        with 1(2) ne u have "loop adj ?s1 = Some y" by (simp add: Let_def)
        from 1(1) [OF this] pe y show ?thesis by simp
      next
        case False
        with 1(2) ne u y have ua: "?u < length adj"
          by (auto simp: Let_def split: if_splits)
        with 1(2) ne u False y obtain s2 where
          s2: "relax_edges ?u (adj ! ?u) ?s1 = Inr s2" "loop adj s2 = Some y"
          by (auto simp: Let_def split: sum.splits)
        from relax_edges_prev_edges [OF _ ua _ s2(1)] pe
        have a: "prev_edges adj (prev s2)" "length (prev s2) = length (prev s)" by simp_all
        from 1(1) [OF s2(2)] a y show ?thesis by simp
      qed
    qed
  qed
qed

lemma loop_prev_edges:
  "dijkstra_loop adj s = Some (Inr s') \<Longrightarrow> prev_edges adj (prev s) \<Longrightarrow>
   prev_edges adj (prev s') \<and> length (prev s') = length (prev s)"
  using loop_prev_edges_aux [of adj s "Inr s'"] by blast

lemma Dijkstra_prev_edges:
  assumes "Dijkstra src n adj = Some (Inr res)"
  shows "prev_edges adj (prev res) \<and> length (prev res) = n"
proof -
  let ?s0 = "\<lparr>dist = (replicate n PInf)[src := Fin 0], prev = replicate n (- 1), pq = [(Fin 0, src)]\<rparr>"
  from assms obtain s where s: "dijkstra_loop adj ?s0 = Some (Inr s)" "res = result_of s"
    by (auto simp: Dijkstra_def split: if_splits option.splits sum.splits)
  have "prev_edges adj (prev ?s0)" by (simp add: prev_edges_def)
  from loop_prev_edges [OF s(1) this] s(2) show ?thesis by (simp add: result_of_def)
qed

subsection \<open>Paths over a loaded topology have interfaces\<close>

lemma to_int_nonneg: "u < 2 ^ 32 \<Longrightarrow> 0 \<le> to_int u \<Longrightarrow> to_u32 (to_int u) = u"
  by (auto simp: to_int_def to_u32_def nat_mod_distrib split: if_splits)

lemma to_u32_nat: "0 \<le> c \<Longrightarrow> nat c < 2 ^ 32 \<Longrightarrow> to_u32 c = nat c"
  by (simp add: to_u32_def nat_mod_distrib)

lemma back_chain_snoc:
  "back_chain adj p \<Longrightarrow> p = [] \<or> has_edge adj u (last p) \<Longrightarrow> back_chain adj (p @ [u])"
  unfolding back_chain_def
proof (intro allI impI)
  fix i
  assume c: "\<forall>i. i + 1 < length p \<longrightarrow> has_edge adj (p ! (i + 1)) (p ! i)"
    and l: "p = [] \<or> has_edge adj u (last p)" and i: "i + 1 < length (p @ [u])"
  show "has_edge adj ((p @ [u]) ! (i + 1)) ((p @ [u]) ! i)"
  proof (cases "i + 1 < length p")
    case True
    with c show ?thesis by (simp add: nth_append)
  next
    case False
    with i have e: "i + 1 = length p" by simp
    then have ne: "p \<noteq> []" and il: "i = length p - 1" by auto
    with l have "has_edge adj u (p ! i)" by (simp add: last_conv_nth)
    with e show ?thesis by (simp add: nth_append)
  qed
qed

lemma walk_back_chain_aux:
  assumes "walk_back prv cur acc = Some y"
  shows "\<forall>p. prev_edges adj prv \<longrightarrow> length prv < 2 ^ 32 \<longrightarrow> length adj < 2 ^ 32 \<longrightarrow> back_chain adj acc \<longrightarrow>
            (acc = [] \<or> cur = - 1 \<or> (\<exists>u. cur = to_int u \<and> has_edge adj u (last acc))) \<longrightarrow>
            y = Inr p \<longrightarrow> back_chain adj p"
proof (rule walk_back.raw_induct
    [where P = "\<lambda>prv cur acc y. \<forall>p. prev_edges adj prv \<longrightarrow> length prv < 2 ^ 32 \<longrightarrow> length adj < 2 ^ 32 \<longrightarrow>
            back_chain adj acc \<longrightarrow>
            (acc = [] \<or> cur = - 1 \<or> (\<exists>u. cur = to_int u \<and> has_edge adj u (last acc))) \<longrightarrow>
            y = Inr p \<longrightarrow> back_chain adj p", OF _ assms], goal_cases)
  case (1 wb prv cur acc y)
  show ?case
  proof (intro allI impI)
    fix p
    assume pe: "prev_edges adj prv" and lp: "length prv < 2 ^ 32" and la: "length adj < 2 ^ 32"
      and bc: "back_chain adj acc"
      and link: "acc = [] \<or> cur = - 1 \<or> (\<exists>u. cur = to_int u \<and> has_edge adj u (last acc))"
      and y: "y = Inr p"
    show "back_chain adj p"
    proof (cases "cur = - 1")
      case True
      with 1(2) y bc show ?thesis by simp
    next
      case False
      with 1(2) y have rng: "0 \<le> cur" "nat cur < length prv"
        by (auto split: if_splits)
      with False 1(2) have rec: "wb prv (prv ! nat cur) (acc @ [to_u32 cur]) = Some y" by simp
      have c32: "to_u32 cur = nat cur" using rng lp by (intro to_u32_nat) simp_all
      have bc': "back_chain adj (acc @ [to_u32 cur])"
      proof (rule back_chain_snoc [OF bc])
        show "acc = [] \<or> has_edge adj (to_u32 cur) (last acc)"
        proof (cases "acc = []")
          case True
          then show ?thesis by simp
        next
          case ne: False
          with link False obtain u where u: "cur = to_int u" "has_edge adj u (last acc)" by blast
          from u(2) la have "u < 2 ^ 32" by (simp add: has_edge_def)
          from to_int_nonneg [OF this] rng(1) u(1) have "to_u32 cur = u" by simp
          with u(2) show ?thesis by simp
        qed
      qed
      from pe rng(2) have "prv ! nat cur = - 1 \<or> (\<exists>u. prv ! nat cur = to_int u \<and> has_edge adj u (nat cur))"
        by (simp add: prev_edges_def)
      then have link': "acc @ [to_u32 cur] = [] \<or> prv ! nat cur = - 1
          \<or> (\<exists>u. prv ! nat cur = to_int u \<and> has_edge adj u (last (acc @ [to_u32 cur])))"
        using c32 by simp
      from 1(1) [OF rec] pe lp la bc' link' y show ?thesis by blast
    qed
  qed
qed

lemma GetPath_edges:
  assumes pe: "prev_edges adj (prev res)" and lp: "length (prev res) < 2 ^ 32" and la: "length adj < 2 ^ 32"
    and g: "GetPath src dst res = Some (Inr path)"
  shows "\<forall>p\<in>set (hops path). has_edge adj (fst p) (snd p)"
proof (cases "path = []")
  case True
  then show ?thesis by (simp add: hops_def)
next
  case False
  with g obtain q where q: "walk_back (prev res) (to_int dst) [] = Some (Inr q)" "path = rev q"
    by (auto simp: GetPath_def split: if_splits option.splits sum.splits)
  have "back_chain adj []" by (simp add: back_chain_def)
  with walk_back_chain_aux [OF q(1), of adj] pe lp la have bc: "back_chain adj q" by blast
  show ?thesis
  proof
    fix p assume "p \<in> set (hops path)"
    then obtain i where i: "i < length (hops path)" "p = hops path ! i"
      by (auto simp: in_set_conv_nth)
    from i(1) have il: "i + 1 < length path" by (simp add: hops_def)
    with i(2) have p: "p = (path ! i, path ! (i + 1))" by (simp add: hops_def nth_tl)
    let ?j = "length q - 2 - i"
    from il q(2) have j: "?j + 1 < length q" by simp
    have a: "rev q ! i = q ! (?j + 1)"
    proof -
      from il q(2) have "i < length q" by simp
      then have "rev q ! i = q ! (length q - Suc i)" by (rule rev_nth)
      moreover from il q(2) have "length q - Suc i = ?j + 1" by simp
      ultimately show ?thesis by simp
    qed
    have b: "rev q ! (i + 1) = q ! ?j"
    proof -
      from il q(2) have "i + 1 < length q" by simp
      then have "rev q ! (i + 1) = q ! (length q - Suc (i + 1))" by (rule rev_nth)
      moreover from il q(2) have "length q - Suc (i + 1) = ?j" by simp
      ultimately show ?thesis by simp
    qed
    from bc j have "has_edge adj (q ! (?j + 1)) (q ! ?j)" by (simp add: back_chain_def)
    with p q(2) a b show "has_edge adj (fst p) (snd p)" by simp
  qed
qed

lemma bind_link_keeps:
  "g_linkInterface su k \<noteq> None \<Longrightarrow> g_linkInterface (bind_link b l su) k \<noteq> None"
  by (simp add: bind_link_def Let_def)

lemma bind_link_adds:
  "g_linkInterface (bind_link b l su) (srcId l, dstId l) \<noteq> None
   \<and> g_linkInterface (bind_link b l su) (dstId l, srcId l) \<noteq> None"
  by (simp add: bind_link_def Let_def)

lemma bind_links_keeps:
  "g_linkInterface su k \<noteq> None \<Longrightarrow> g_linkInterface (bind_links engine i ls su) k \<noteq> None"
proof (induction ls arbitrary: i su)
  case Nil
  then show ?case by simp
next
  case (Cons a ls)
  from Cons.IH [OF bind_link_keeps [OF Cons.prems]] show ?case by simp
qed

lemma bind_links_adds:
  "l \<in> set ls \<Longrightarrow>
   g_linkInterface (bind_links engine i ls su) (srcId l, dstId l) \<noteq> None
   \<and> g_linkInterface (bind_links engine i ls su) (dstId l, srcId l) \<noteq> None"
proof (induction ls arbitrary: i su)
  case Nil
  then show ?case by simp
next
  case (Cons a ls)
  show ?case
  proof (cases "l = a")
    case True
    with bind_link_adds [of "engine i a" a su] show ?thesis
      by (simp add: bind_links_keeps)
  next
    case False
    with Cons show ?thesis by simp
  qed
qed

lemma push_edge_edges:
  assumes "push_edge u e adj = Inr a"
  shows "length a = length adj
     \<and> (\<forall>x y. x < length a \<and> y \<in> set (a ! x) \<longrightarrow> y \<in> set (adj ! x) \<or> (x = u \<and> y = e))"
  using assms by (auto simp: push_edge_def nth_list_update split: if_splits)

lemma add_edges_edges:
  "add_edges ls adj = Inr a \<Longrightarrow>
   length a = length adj
   \<and> (\<forall>x y. x < length a \<and> y \<in> set (a ! x) \<longrightarrow>
         y \<in> set (adj ! x)
         \<or> (\<exists>l\<in>set ls. (x = srcId l \<and> fst y = dstId l) \<or> (x = dstId l \<and> fst y = srcId l)))"
proof (induction ls arbitrary: adj)
  case Nil
  then show ?case by simp
next
  case (Cons l ls)
  from Cons.prems obtain a1 a2 where
    a: "push_edge (srcId l) (dstId l, delayMs l) adj = Inr a1"
       "push_edge (dstId l) (srcId l, delayMs l) a1 = Inr a2"
       "add_edges ls a2 = Inr a"
    by (auto split: sum.splits)
  note p1 = push_edge_edges [OF a(1)] and p2 = push_edge_edges [OF a(2)] and ih = Cons.IH [OF a(3)]
  show ?case
  proof (intro conjI allI impI)
    show "length a = length adj" using p1 p2 ih by simp
  next
    fix x y assume xy: "x < length a \<and> y \<in> set (a ! x)"
    with ih have "y \<in> set (a2 ! x)
         \<or> (\<exists>l\<in>set ls. (x = srcId l \<and> fst y = dstId l) \<or> (x = dstId l \<and> fst y = srcId l))"
      by blast
    then show "y \<in> set (adj ! x)
         \<or> (\<exists>l'\<in>set (l # ls). (x = srcId l' \<and> fst y = dstId l') \<or> (x = dstId l' \<and> fst y = srcId l'))"
    proof
      assume "y \<in> set (a2 ! x)"
      moreover from xy ih have "x < length a2" by simp
      ultimately have "y \<in> set (a1 ! x) \<or> (x = dstId l \<and> y = (srcId l, delayMs l))"
        using p2 by blast
      moreover from \<open>x < length a2\<close> p2 have "x < length a1" by simp
      ultimately have "y \<in> set (adj ! x) \<or> (x = srcId l \<and> y = (dstId l, delayMs l))
          \<or> (x = dstId l \<and> y = (srcId l, delayMs l))"
        using p1 by blast
      then show ?thesis by auto
    next
      assume "\<exists>l\<in>set ls. (x = srcId l \<and> fst y = dstId l) \<or> (x = dstId l \<and> fst y = srcId l)"
      then show ?thesis by auto
    qed
  qed
qed

lemma load_line_numNodes: "g_numNodes t < 2 ^ 32 \<Longrightarrow> g_numNodes (load_line l t) < 2 ^ 32"
  by (cases l) (simp_all add: Let_def)

lemma fold_load_line_numNodes:
  "g_numNodes t < 2 ^ 32 \<Longrightarrow> g_numNodes (fold load_line ls t) < 2 ^ 32"
proof (induction ls arbitrary: t)
  case Nil
  then show ?case by simp
next
  case (Cons a ls)
  from Cons.IH [OF load_line_numNodes [OF Cons.prems]] show ?case by simp
qed

lemma load_line_adj: "g_adjList (load_line l t) = g_adjList t"
  by (cases l) (simp_all add: Let_def)

lemma fold_load_line_adj: "g_adjList (fold load_line ls t) = g_adjList t"
  by (induction ls arbitrary: t) (simp_all add: load_line_adj)

lemma LoadLinks_adj:
  assumes "LoadLinks (Some ls) no_topology = Inr (ok, t)"
  shows "length (g_adjList t) = g_numNodes t \<and> g_numNodes t < 2 ^ 32
     \<and> (\<forall>a b. has_edge (g_adjList t) a b \<longrightarrow>
           (\<exists>l\<in>set (g_links t). (a = srcId l \<and> b = dstId l) \<or> (a = dstId l \<and> b = srcId l)))"
proof -
  let ?t1 = "fold load_line (drop 1 ls) no_topology"
  from assms obtain a where
    a: "add_edges (g_links ?t1) (resize (g_numNodes ?t1) (g_adjList ?t1)) = Inr a"
       "t = ?t1\<lparr>g_adjList := a\<rparr>"
    by (auto simp: LoadLinks_def Let_def split: sum.splits)
  have e: "g_adjList ?t1 = []"
    by (simp add: fold_load_line_adj no_topology_def)
  have n: "g_numNodes ?t1 < 2 ^ 32"
    by (rule fold_load_line_numNodes) (simp add: no_topology_def)
  note ae = add_edges_edges [OF a(1)]
  have la: "length a = g_numNodes ?t1" using ae unfolding resize_def e by simp
  have em: "resize (g_numNodes ?t1) (g_adjList ?t1) ! x = []" if "x < g_numNodes ?t1" for x
    using that unfolding resize_def e by simp
  have "\<exists>l\<in>set (g_links ?t1). (x = srcId l \<and> b = dstId l) \<or> (x = dstId l \<and> b = srcId l)"
    if h: "has_edge a x b" for x b
  proof -
    from h obtain y where y: "x < length a" "y \<in> set (a ! x)" "fst y = b"
      by (auto simp: has_edge_def)
    with ae have "y \<in> set (resize (g_numNodes ?t1) (g_adjList ?t1) ! x)
       \<or> (\<exists>l\<in>set (g_links ?t1). (x = srcId l \<and> fst y = dstId l) \<or> (x = dstId l \<and> fst y = srcId l))"
      by blast
    with em [of x] y(1,3) la show ?thesis by auto
  qed
  with la n a(2) show ?thesis by simp
qed

text \<open>
  Claim C10. After the link loop of \<^verbatim>\<open>main\<close> the interface map has an entry for both
  directed pairs of every loaded link. Hence, for every path that \<^verbatim>\<open>GetPath\<close> returns on
  a result of \<^verbatim>\<open>Dijkstra\<close> over the adjacency list that \<^verbatim>\<open>LoadLinks\<close> built from the same
  links, the lookup succeeds for every consecutive pair, and installing the routes of
  the path writes no warning.
\<close>

theorem loaded_paths_have_interfaces:
  assumes "LoadLinks (Some ls) no_topology = Inr (ok, t)"
  shows "(\<forall>l\<in>set (g_links t).
            g_linkInterface (bind_links engine 0 (g_links t) no_setup) (srcId l, dstId l) \<noteq> None
          \<and> g_linkInterface (bind_links engine 0 (g_links t) no_setup) (dstId l, srcId l) \<noteq> None)
     \<and> (Dijkstra src (g_numNodes t) (g_adjList t) = Some (Inr res)
          \<and> GetPath src dst res = Some (Inr path) \<longrightarrow>
          (\<forall>p\<in>set (hops path). g_linkInterface (bind_links engine 0 (g_links t) no_setup) p \<noteq> None)
          \<and> warnings (install_hops (g_linkInterface (bind_links engine 0 (g_links t) no_setup))
                destAddr path 0 r) = warnings r)"
proof (intro conjI impI ballI)
  let ?li = "g_linkInterface (bind_links engine 0 (g_links t) no_setup)"
  fix l assume "l \<in> set (g_links t)"
  from bind_links_adds [OF this, of engine 0 no_setup]
  show "?li (srcId l, dstId l) \<noteq> None" "?li (dstId l, srcId l) \<noteq> None" by simp_all
next
  let ?li = "g_linkInterface (bind_links engine 0 (g_links t) no_setup)"
  assume a: "Dijkstra src (g_numNodes t) (g_adjList t) = Some (Inr res)
          \<and> GetPath src dst res = Some (Inr path)"
  note la = LoadLinks_adj [OF assms]
  from Dijkstra_prev_edges [of src "g_numNodes t" "g_adjList t" res] a
  have pe: "prev_edges (g_adjList t) (prev res)" "length (prev res) = g_numNodes t" by simp_all
  from la pe(2) have lp: "length (prev res) < 2 ^ 32" "length (g_adjList t) < 2 ^ 32" by simp_all
  from GetPath_edges [OF pe(1) lp, of src dst path] a
  have ed: "\<forall>p\<in>set (hops path). has_edge (g_adjList t) (fst p) (snd p)" by simp
  have li: "?li p \<noteq> None" if p: "p \<in> set (hops path)" for p
  proof -
    from ed p have "has_edge (g_adjList t) (fst p) (snd p)" by blast
    with la obtain l where l: "l \<in> set (g_links t)"
      "(fst p = srcId l \<and> snd p = dstId l) \<or> (fst p = dstId l \<and> snd p = srcId l)" by blast
    from bind_links_adds [OF l(1), of engine 0 no_setup] l(2) show ?thesis
      by (cases p) auto
  qed
  then show "\<And>p. p \<in> set (hops path) \<Longrightarrow> ?li p \<noteq> None" .
  from li have "filter (\<lambda>p. ?li p = None) (hops path) = []" by (auto simp: filter_empty_conv)
  with install_hops_from [of ?li destAddr path 0 r]
  show "warnings (install_hops ?li destAddr path 0 r) = warnings r" by simp
qed

theorem loaded_paths_have_interfaces_witness:
  "\<exists>ok t. LoadLinks (Some [BadLine, LinkLine 0 1 ''A'' ''B'' (Fin 2) 1000000 None None]) no_topology = Inr (ok, t)
     \<and> g_links t \<noteq> []
     \<and> g_linkInterface (bind_links (\<lambda>i l. \<lparr>srcIfIndex = 1, dstIfIndex = 1, address0 = 4 * i + 1,
            address1 = 4 * i + 2\<rparr>) 0 (g_links t) no_setup) (1, 0) \<noteq> None"
proof -
  let ?L = "[BadLine, LinkLine 0 1 ''A'' ''B'' (Fin 2) 1000000 None None]"
  obtain ok t where h: "LoadLinks (Some ?L) no_topology = Inr (ok, t)"
    and l: "map srcId (g_links t) = [0]" "map dstId (g_links t) = [1]"
    by (simp add: LoadLinks_def no_topology_def resize_def push_edge_def Let_def)
  from l obtain l0 where l0: "l0 \<in> set (g_links t)" "srcId l0 = 0" "dstId l0 = 1"
    by (cases "g_links t") auto
  from loaded_paths_have_interfaces [OF h] l0 have
    "g_linkInterface (bind_links (\<lambda>i l. \<lparr>srcIfIndex = 1, dstIfIndex = 1, address0 = 4 * i + 1,
            address1 = 4 * i + 2\<rparr>) 0 (g_links t) no_setup) (1, 0) \<noteq> None"
    by fastforce
  with h l0(1) show ?thesis by (intro exI [of _ ok] exI [of _ t]) auto
qed

subsection \<open>A loaded topology is well-formed\<close>

text \<open>The adjacency list that \<^verbatim>\<open>LoadLinks\<close> builds satisfies \<open>graph_ok\<close> when it has at most
  \<open>2 ^ 31\<close> nodes, so the two theorems on \<^verbatim>\<open>Dijkstra\<close> and \<^verbatim>\<open>GetPath\<close> apply to it.\<close>

lemma push_edge_edges_ok:
  assumes "push_edge u e adj = Inr a" "edges_ok n adj" "fst e < n" "\<not> dle (snd e) (Fin 0)"
  shows "edges_ok n a \<and> length a = length adj \<and> u < length adj"
proof -
  from assms(1) have u: "u < length adj" and a: "a = adj[u := adj ! u @ [e]]"
    by (auto simp: push_edge_def split: if_splits)
  have "list_all (\<lambda>e. fst e < n \<and> \<not> dle (snd e) (Fin 0)) (adj ! u @ [e])"
    using assms(2,3,4) u nth_mem [OF u] by (auto simp: edges_ok_def list_all_iff)
  with assms(2) u show ?thesis
    unfolding a edges_ok_def by (auto simp: list_all_iff dest!: set_update_subset_insert [THEN subsetD])
qed

lemma add_edges_edges_ok:
  "add_edges ls adj = Inr a \<Longrightarrow> edges_ok (length adj) adj \<Longrightarrow> list_all link_ok ls \<Longrightarrow>
   edges_ok (length adj) a \<and> length a = length adj"
proof (induction ls arbitrary: adj)
  case Nil
  then show ?case by simp
next
  case (Cons l ls)
  from Cons.prems(1) obtain a1 a2 where
    a: "push_edge (srcId l) (dstId l, delayMs l) adj = Inr a1"
       "push_edge (dstId l) (srcId l, delayMs l) a1 = Inr a2"
       "add_edges ls a2 = Inr a"
    by (auto split: sum.splits)
  from Cons.prems(3) have d: "\<not> dle (delayMs l) (Fin 0)" and ls: "list_all link_ok ls"
    by (simp_all add: link_ok_def [abs_def])
  from a(1) have s: "srcId l < length adj" by (auto simp: push_edge_def split: if_splits)
  from a(1) have l1: "length a1 = length adj" by (auto simp: push_edge_def split: if_splits)
  from a(2) l1 have t: "dstId l < length adj" by (auto simp: push_edge_def split: if_splits)
  from push_edge_edges_ok [OF a(1) Cons.prems(2)] t d
  have e1: "edges_ok (length adj) a1" by simp
  from push_edge_edges_ok [OF a(2) e1] s d
  have e2: "edges_ok (length adj) a2" "length a2 = length a1" by simp_all
  from Cons.IH [OF a(3)] e2 l1 ls show ?case by simp
qed

lemma LoadLinks_graph_ok:
  assumes "LoadLinks (Some ls) no_topology = Inr (ok, t)" and "g_numNodes t \<le> 2 ^ 31"
  shows "graph_ok (g_adjList t) (g_numNodes t)"
proof -
  let ?t1 = "fold load_line (drop 1 ls) no_topology"
  from assms(1) obtain a where
    a: "add_edges (g_links ?t1) (resize (g_numNodes ?t1) (g_adjList ?t1)) = Inr a"
       "t = ?t1\<lparr>g_adjList := a\<rparr>"
    by (auto simp: LoadLinks_def Let_def split: sum.splits)
  have e: "g_adjList ?t1 = []"
    by (simp add: fold_load_line_adj no_topology_def)
  have r: "resize (g_numNodes ?t1) (g_adjList ?t1) = replicate (g_numNodes ?t1) []"
    unfolding resize_def e by simp
  have ok: "list_all link_ok (g_links ?t1)"
    by (rule fold_load_line_ok) (simp add: no_topology_def)
  have "edges_ok (length (replicate (g_numNodes ?t1) ([] :: (nat \<times> double) list)))
          (replicate (g_numNodes ?t1) [])"
    by (simp add: edges_ok_def list_all_iff)
  from add_edges_edges_ok [OF a(1) [unfolded r] this ok]
  have "edges_ok (g_numNodes ?t1) a" "length a = g_numNodes ?t1" by simp_all
  with a(2) assms(2) show ?thesis by (simp add: graph_ok_def edges_ok_def)
qed

section \<open>The Traffic Scheduler skips a demand without a path\<close>

lemma process_demand_skip:
  assumes "g_nodeFirstIp su (dm_dstId d) = None
     \<or> (Dijkstra (dm_srcId d) (g_numNodes t) (g_adjList t) = Some (Inr res)
         \<and> GetPath (dm_srcId d) (dm_dstId d) res = Some (Inr path) \<and> length path < 2)"
  shows "process_demand put t su simTime d r = Some (Inr r)"
  using assms by (auto simp: process_demand_def split: option.splits sum.splits)

text \<open>
  Claim C4. A demand whose destination has no assigned address, or whose derived path
  has fewer than two nodes (the empty path included), leaves the run as it was: no row
  of the route report, no route, no warning, no endpoint, the same next port. The
  demands around it are processed, in the order of the input, as if it were absent.
\<close>

theorem skipped_demand:
  assumes "g_nodeFirstIp su (dm_dstId d) = None
     \<or> (Dijkstra (dm_srcId d) (g_numNodes t) (g_adjList t) = Some (Inr res)
         \<and> GetPath (dm_srcId d) (dm_dstId d) res = Some (Inr path) \<and> length path < 2)"
  shows "process_demand put t su simTime d r = Some (Inr r)
     \<and> run_demands put t su simTime (ds1 @ d # ds2) r0 = run_demands put t su simTime (ds1 @ ds2) r0"
proof
  show "process_demand put t su simTime d r = Some (Inr r)" by (rule process_demand_skip [OF assms])
  show "run_demands put t su simTime (ds1 @ d # ds2) r0 = run_demands put t su simTime (ds1 @ ds2) r0"
  proof (induction ds1 arbitrary: r0)
    case Nil
    show ?case using process_demand_skip [OF assms, of put simTime r0] by simp
  next
    case (Cons a ds1)
    then show ?case by (simp split: option.splits sum.splits)
  qed
qed

text \<open>Two demands that are skipped: the destination of the first has no address; the
  destination of the second has one and no path leads to it.\<close>

theorem skipped_demand_witness:
  "g_nodeFirstIp no_setup 1 = None
   \<and> process_demand (\<lambda>x. ''1'') no_topology no_setup (Fin 10) \<lparr>demandId = 0, srcNode = ''A'', dstNode = ''B'',
        dm_srcId = 0, dm_dstId = 1, dataRateMbps = Fin 1, startTimeSec = Fin 0, durationSec = Fin 1\<rparr> start_run
      = Some (Inr start_run)
   \<and> Dijkstra 0 3 [[(1, Fin 2)], [(0, Fin 2)], []]
        = Some (Inr \<lparr>dist = [Fin 0, Fin 2, PInf], prev = [- 1, 0, - 1]\<rparr>)
   \<and> GetPath 0 2 \<lparr>dist = [Fin 0, Fin 2, PInf], prev = [- 1, 0, - 1]\<rparr> = Some (Inr [])
   \<and> process_demand (\<lambda>x. ''1'')
        \<lparr>g_links = [], g_nodeIdToName = Map.empty, g_numNodes = 3,
          g_adjList = [[(1, Fin 2)], [(0, Fin 2)], []]\<rparr>
        \<lparr>g_linkInterface = Map.empty, g_nodeFirstIp = [2 \<mapsto> 9]\<rparr> (Fin 10)
        \<lparr>demandId = 1, srcNode = ''A'', dstNode = ''C'',
          dm_srcId = 0, dm_dstId = 2, dataRateMbps = Fin 1, startTimeSec = Fin 0, durationSec = Fin 1\<rparr> start_run
      = Some (Inr start_run)"
proof -
  let ?d1 = "\<lparr>demandId = 0, srcNode = ''A'', dstNode = ''B'',
        dm_srcId = 0, dm_dstId = 1, dataRateMbps = Fin 1, startTimeSec = Fin 0, durationSec = Fin 1\<rparr>"
  let ?d2 = "\<lparr>demandId = 1, srcNode = ''A'', dstNode = ''C'',
          dm_srcId = 0, dm_dstId = 2, dataRateMbps = Fin 1, startTimeSec = Fin 0, durationSec = Fin 1\<rparr>"
  let ?t = "\<lparr>g_links = [], g_nodeIdToName = Map.empty, g_numNodes = 3,
          g_adjList = [[(1, Fin 2)], [(0, Fin 2)], []]\<rparr>"
  let ?su = "\<lparr>g_linkInterface = Map.empty, g_nodeFirstIp = [2 \<mapsto> 9]\<rparr>"
  have h1: "g_nodeFirstIp no_setup (dm_dstId ?d1) = None" by (simp add: no_setup_def)
  have h2: "Dijkstra (dm_srcId ?d2) (g_numNodes ?t) (g_adjList ?t)
        = Some (Inr \<lparr>dist = [Fin 0, Fin 2, PInf], prev = [- 1, 0, - 1]\<rparr>)
      \<and> GetPath (dm_srcId ?d2) (dm_dstId ?d2) \<lparr>dist = [Fin 0, Fin 2, PInf], prev = [- 1, 0, - 1]\<rparr>
          = Some (Inr [])
      \<and> length ([] :: nat list) < 2"
    using Dijkstra_example GetPath_example by simp
  from skipped_demand [OF disjI1, OF h1, of "\<lambda>x. ''1''" no_topology "Fin 10" start_run "[]" "[]" start_run]
    skipped_demand [OF disjI2, OF h2, of "\<lambda>x. ''1''" ?su "Fin 10" start_run "[]" "[]" start_run]
  show ?thesis using h1 h2 by simp
qed

end
